theory Spec2Isabelle
  imports Main "HOL-Library.Word" "HOL-Library.Multiset"
begin

section \<open>Data model of state.go\<close>

text \<open>
  The membership core keeps one \<open>NodeState\<close> record per known peer. The Go code holds
  pointers to these records both in the slice \<open>m.nodes\<close> and in the map \<open>m.nodeMap\<close>, and
  timer closures capture the same pointers. The model therefore has an explicit store
  \<open>heap\<close>: a \<open>*NodeState\<close> is an index into it, allocation appends, and nothing is ever
  freed (a record that is dropped from the table stays reachable from closures).
\<close>

type_synonym uint32 = "32 word"
type_synonym bytes = "8 word list"
type_synonym ptr = nat
type_synonym timestamp = nat

definition StateAlive :: int where [simp]: "StateAlive = 0"
definition StateSuspect :: int where [simp]: "StateSuspect = 1"
definition StateDead :: int where [simp]: "StateDead = 2"

record Node =
  Name :: string
  Addr :: bytes
  Meta :: bytes

record NodeState = Node +
  Incarnation :: uint32
  State :: int
  StateChange :: timestamp

text \<open>The gossip messages; their types are declared outside state.go, the fields are the
  ones state.go reads and writes.\<close>

record alive =
  alive_Incarnation :: uint32
  alive_Node :: string
  alive_Addr :: bytes
  alive_Meta :: bytes

record suspect =
  suspect_Incarnation :: uint32
  suspect_Node :: string

record dead =
  dead_Incarnation :: uint32
  dead_Node :: string

record pushNodeState =
  push_Name :: string
  push_Addr :: bytes
  push_Meta :: bytes
  push_Incarnation :: uint32
  push_State :: int

datatype message = aliveMsg alive | suspectMsg suspect | deadMsg dead

text \<open>The handler of an ack registration: \<open>setAckChannel\<close> builds a closure that sends
  \<open>true\<close> on its channel, \<open>setAckHandler\<close> stores the caller's function.\<close>

datatype handlerFn = ChanHandler nat | UserHandler nat

record ackHandler =
  handler :: handlerFn
  timer :: nat

text \<open>A reap timer made by \<open>time.AfterFunc\<close>, with what its closure captured: the sequence
  number and, for \<open>setAckChannel\<close>, the channel. It is \<open>Armed\<close> until it expires; an
  \<open>Expired\<close> timer has started its closure, which has not yet run.\<close>

datatype reapTimer = Armed uint32 "nat option" | Expired uint32 "nat option"

datatype activity = ProbeTick | PushPullTick | GossipTick

text \<open>Everything the code does to the outside is appended to \<open>trace\<close>, in program order.\<close>

datatype effect =
    Broadcast string message
  | JoinNotify ptr
  | LeaveNotify ptr
  | SuspicionTimer ptr timestamp
  | HandlerInvoked uint32 handlerFn
  | ChanSend nat bool
  | LogErr string

record Config =
  Config_Name :: string
  ProbeInterval :: int
  PushPullInterval :: int
  GossipInterval :: int
  GossipNodes :: int

record Memberlist =
  config :: Config
  leave :: bool
  incarnation :: uint32
  sequenceNum :: uint32
  heap :: "NodeState list"
  nodes :: "ptr list"
  nodeMap :: "string \<rightharpoonup> ptr"
  probeIndex :: nat
  ackHandlers :: "uint32 \<rightharpoonup> ackHandler"
  ackTimers :: "nat \<rightharpoonup> reapTimer"
  nextTimer :: nat
  tickers :: "(activity \<times> int) list"
  trace :: "effect list"

section \<open>Counters and down-calls\<close>

text \<open>\<open>atomic.AddUint32(&m.incarnation, 1)\<close>: the new value, wrapping at \<open>2^32\<close>.\<close>

definition nextIncarnation :: "Memberlist \<Rightarrow> uint32 \<times> Memberlist" where
  "nextIncarnation m = (incarnation m + 1, m\<lparr>incarnation := incarnation m + 1\<rparr>)"

definition nextSeqNo :: "Memberlist \<Rightarrow> uint32 \<times> Memberlist" where
  "nextSeqNo m = (sequenceNum m + 1, m\<lparr>sequenceNum := sequenceNum m + 1\<rparr>)"

text \<open>\<open>encodeAndBroadcast\<close> and \<open>notify\<close> belong to the broadcast queue and the
  notification channels; a call is recorded in the trace.\<close>

definition encodeAndBroadcast :: "string \<Rightarrow> message \<Rightarrow> Memberlist \<Rightarrow> Memberlist" where
  "encodeAndBroadcast node msg m = m\<lparr>trace := trace m @ [Broadcast node msg]\<rparr>"

definition emit :: "effect \<Rightarrow> Memberlist \<Rightarrow> Memberlist" where
  "emit e m = m\<lparr>trace := trace m @ [e]\<rparr>"

text \<open>Modelled from the spec: \<open>randomOffset\<close> is not in state.go. The spec has the new
  record appended at the tail and then swapped with a uniformly random earlier index; \<open>r\<close>
  is the draw of the random source, and the empty table has only index 0.\<close>

definition randomOffset :: "nat \<Rightarrow> nat \<Rightarrow> nat" where
  "randomOffset n r = (if n = 0 then 0 else r mod n)"

section \<open>The state machine: aliveNode, suspectNode, deadNode, mergeState\<close>

text \<open>Each operation takes the clock reading \<open>now\<close> that its \<open>time.Now()\<close> returns;
  \<open>aliveNode\<close> also takes the draw \<open>r\<close> of the random source.\<close>

text \<open>The record made for a name never seen before (l.351-358): \<open>Incarnation\<close> and
  \<open>StateChange\<close> keep Go's zero values, the zero \<open>time.Time\<close> being timestamp 0.\<close>

definition newNodeState :: "alive \<Rightarrow> NodeState" where
  "newNodeState a =
     \<lparr>Name = alive_Node a, Addr = alive_Addr a, Meta = alive_Meta a,
      Incarnation = 0, State = StateDead, StateChange = 0\<rparr>"

text \<open>Lines 360-372: the new record is allocated, entered in the map, appended to the slice
  and exchanged with the entry at the random offset.\<close>

definition insertNode :: "Memberlist \<Rightarrow> alive \<Rightarrow> nat \<Rightarrow> Memberlist \<times> ptr" where
  "insertNode m a r =
     (let state = length (heap m);
          n = length (nodes m);
          offset = randomOffset n r;
          ns = nodes m @ [state]
      in (m\<lparr>heap := heap m @ [newNodeState a],
            nodeMap := (nodeMap m)(alive_Node a \<mapsto> state),
            nodes := ns[offset := ns ! n, n := ns ! offset]\<rparr>, state))"

definition aliveNode :: "Memberlist \<Rightarrow> alive \<Rightarrow> nat \<Rightarrow> timestamp \<Rightarrow> Memberlist" where
  "aliveNode m a r now =
     (let (m1, state) = (case nodeMap m (alive_Node a) of
                           Some p \<Rightarrow> (m, p)
                         | None \<Rightarrow> insertNode m a r);
          st = heap m1 ! state
      in if alive_Incarnation a \<le> Incarnation st then m1
         else
           (let m2 = encodeAndBroadcast (alive_Node a) (aliveMsg a) m1;
                oldState = State st;
                st1 = st\<lparr>Incarnation := alive_Incarnation a\<rparr>;
                st2 = (if State st1 \<noteq> StateAlive
                       then st1\<lparr>State := StateAlive, StateChange := now\<rparr> else st1);
                m3 = m2\<lparr>heap := (heap m2)[state := st2]\<rparr>
            in if oldState = StateDead then emit (JoinNotify state) m3 else m3))"

text \<open>The refutation block, written out in \<open>suspectNode\<close> (l.421-426) and again in
  \<open>deadNode\<close> (l.477-482); \<open>node\<close> is the name the broadcast is queued under.\<close>

definition refute :: "Memberlist \<Rightarrow> ptr \<Rightarrow> string \<Rightarrow> Memberlist" where
  "refute m state node =
     (let st = heap m ! state;
          (inc, m1) = nextIncarnation m;
          a = \<lparr>alive_Incarnation = inc, alive_Node = Name st,
               alive_Addr = Addr st, alive_Meta = Meta st\<rparr>;
          m2 = encodeAndBroadcast node (aliveMsg a) m1
      in m2\<lparr>heap := (heap m2)[state := st\<lparr>Incarnation := inc\<rparr>]\<rparr>)"

definition suspectNode :: "Memberlist \<Rightarrow> suspect \<Rightarrow> timestamp \<Rightarrow> Memberlist" where
  "suspectNode m s now =
     (case nodeMap m (suspect_Node s) of
        None \<Rightarrow> m
      | Some state \<Rightarrow>
          (let st = heap m ! state
           in if suspect_Incarnation s < Incarnation st then m
              else if State st \<noteq> StateAlive then m
              else if Name st = Config_Name (config m) then refute m state (suspect_Node s)
              else
                (let m1 = encodeAndBroadcast (suspect_Node s) (suspectMsg s) m;
                     changeTime = now;
                     st' = st\<lparr>Incarnation := suspect_Incarnation s,
                              State := StateSuspect, StateChange := changeTime\<rparr>;
                     m2 = m1\<lparr>heap := (heap m1)[state := st']\<rparr>
                 in emit (SuspicionTimer state changeTime) m2)))"

definition deadNode :: "Memberlist \<Rightarrow> dead \<Rightarrow> timestamp \<Rightarrow> Memberlist" where
  "deadNode m d now =
     (case nodeMap m (dead_Node d) of
        None \<Rightarrow> m
      | Some state \<Rightarrow>
          (let st = heap m ! state
           in if dead_Incarnation d < Incarnation st then m
              else if State st = StateDead then m
              else if Name st = Config_Name (config m) \<and> \<not> leave m
                then refute m state (dead_Node d)
              else
                (let m1 = encodeAndBroadcast (dead_Node d) (deadMsg d) m;
                     st' = st\<lparr>Incarnation := dead_Incarnation d,
                              State := StateDead, StateChange := now\<rparr>;
                     m2 = m1\<lparr>heap := (heap m1)[state := st']\<rparr>
                 in emit (LeaveNotify state) m2)))"

text \<open>\<open>mergeState\<close> walks the remote vector; every element comes with the random draw and
  the clock reading that the call it triggers would observe.\<close>

fun mergeState :: "Memberlist \<Rightarrow> (pushNodeState \<times> nat \<times> timestamp) list \<Rightarrow> Memberlist" where
  "mergeState m [] = m"
| "mergeState m ((r, rnd, now) # remote) =
     (if (case nodeMap m (push_Name r) of
            Some local \<Rightarrow> State (heap m ! local) = push_State r
          | None \<Rightarrow> False)
      then mergeState m remote
      else if push_State r = StateAlive then
        mergeState (aliveNode m \<lparr>alive_Incarnation = push_Incarnation r, alive_Node = push_Name r,
                                 alive_Addr = push_Addr r, alive_Meta = push_Meta r\<rparr> rnd now) remote
      else if push_State r = StateSuspect then
        mergeState (suspectNode m \<lparr>suspect_Incarnation = push_Incarnation r,
                                   suspect_Node = push_Name r\<rparr> now) remote
      else if push_State r = StateDead then
        mergeState (deadNode m \<lparr>dead_Incarnation = push_Incarnation r,
                                dead_Node = push_Name r\<rparr> now) remote
      else mergeState m remote)"

section \<open>Suspicion timer\<close>

text \<open>
  \<open>suspectNode\<close> ends with \<open>time.AfterFunc(timeout, func() {...})\<close>; the armed timer is the
  trace entry \<open>SuspicionTimer state changeTime\<close> with the two values the closure captures.
  The model is untimed: the delay computed by \<open>suspicionTimeout\<close> (outside state.go) is not
  represented, and \<open>suspicionTimerFire\<close> is the closure's body, run at whatever moment the
  timer fires, with the clock reading \<open>now\<close> of that moment.
\<close>

definition timeoutMsg :: "NodeState \<Rightarrow> dead" where
  "timeoutMsg n = \<lparr>dead_Incarnation = Incarnation n, dead_Node = Name n\<rparr>"

definition suspectTimeout :: "Memberlist \<Rightarrow> ptr \<Rightarrow> timestamp \<Rightarrow> Memberlist" where
  "suspectTimeout m n now = deadNode m (timeoutMsg (heap m ! n)) now"

definition suspicionTimerFire :: "Memberlist \<Rightarrow> ptr \<Rightarrow> timestamp \<Rightarrow> timestamp \<Rightarrow> Memberlist" where
  "suspicionTimerFire m state changeTime now =
     (if State (heap m ! state) = StateSuspect \<and> StateChange (heap m ! state) = changeTime
      then suspectTimeout m state now else m)"

section \<open>Reset sweep and probe tick\<close>

text \<open>Modelled from the spec: \<open>moveDeadNodes\<close> is not in state.go. The spec partitions the
  sequence so that live records precede Dead records and returns the start of the Dead
  tail; the order inside each part is left open, the model keeps it.\<close>

definition moveDeadNodes :: "NodeState list \<Rightarrow> ptr list \<Rightarrow> ptr list \<times> nat" where
  "moveDeadNodes h ns =
     (filter (\<lambda>p. State (h ! p) \<noteq> StateDead) ns @ filter (\<lambda>p. State (h ! p) = StateDead) ns,
      length (filter (\<lambda>p. State (h ! p) \<noteq> StateDead) ns))"

text \<open>Modelled from the spec: \<open>shuffleNodes\<close> is not in state.go. The spec shuffles the
  remaining live records uniformly; the model exchanges position \<open>i\<close> with a drawn position
  \<open>j \<le> i\<close> for every \<open>i\<close>, reading the draws from \<open>rs\<close> (0 once they run out).\<close>

definition shuffleNodes :: "nat list \<Rightarrow> ptr list \<Rightarrow> ptr list" where
  "shuffleNodes rs ns =
     fold (\<lambda>i xs. let j = (if i < length rs then rs ! i else 0) mod (i + 1)
                   in xs[i := xs ! j, j := xs ! i]) [0..<length ns] ns"

definition resetNodes :: "Memberlist \<Rightarrow> nat list \<Rightarrow> Memberlist" where
  "resetNodes m rs =
     (let (ns, deadIdx) = moveDeadNodes (heap m) (nodes m);
          nm = fold (\<lambda>p nm. nm(Name (heap m ! p) := None)) (drop deadIdx ns) (nodeMap m)
      in m\<lparr>nodeMap := nm, nodes := shuffleNodes rs (take deadIdx ns)\<rparr>)"

text \<open>Lines 100-102 of \<open>probe\<close>: the wrap-around handling.\<close>

definition wrapAround :: "Memberlist \<Rightarrow> nat list \<Rightarrow> Memberlist" where
  "wrapAround m rs = (resetNodes m rs)\<lparr>probeIndex := 0\<rparr>"

text \<open>
  \<open>probe\<close> is the loop around the label \<open>START\<close>; it ends either without a target or with
  the call \<open>m.probeNode(node)\<close>. \<open>probeNode\<close> is a blocking network exchange on channels and
  timers and is not modelled; it never writes \<open>probeIndex\<close>. The result is the state at
  that call and the record handed to \<open>probeNode\<close>.
\<close>

function probeLoop :: "nat list \<Rightarrow> nat \<Rightarrow> Memberlist \<Rightarrow> Memberlist \<times> ptr option" where
  "probeLoop rs numCheck m =
     (if numCheck \<ge> length (nodes m) then (m, None)
      else if probeIndex m \<ge> length (nodes m)
        then probeLoop rs (numCheck + 1) (wrapAround m rs)
      else
        (let node = nodes m ! probeIndex m;
             skip = (if Name (heap m ! node) = Config_Name (config m) then True
                     else if State (heap m ! node) = StateDead then True else False)
         in if skip then probeLoop rs (numCheck + 1) (m\<lparr>probeIndex := probeIndex m + 1\<rparr>)
            else (m, Some node)))"
  by pat_completeness auto
termination
proof (relation "measure (\<lambda>(rs, numCheck, m). length (nodes m) - numCheck)")
  show "wf (measure (\<lambda>(rs, numCheck, m). length (nodes m) - numCheck))"
    by simp
next
  fix rs :: "nat list" and numCheck :: nat and m :: Memberlist
  assume a: "\<not> length (nodes m) \<le> numCheck"
  have len: "length (fold f is xs) = length xs"
    if "\<And>i ys. length (f i ys) = length ys" for f :: "nat \<Rightarrow> ptr list \<Rightarrow> ptr list" and "is" xs
    using that by (induction "is" arbitrary: xs) simp_all
  have "length (shuffleNodes rs xs) = length xs" for xs
    unfolding shuffleNodes_def by (rule len) (simp add: Let_def)
  then have "length (nodes (wrapAround m rs)) \<le> length (nodes m)"
    by (simp add: wrapAround_def resetNodes_def moveDeadNodes_def)
  with a show "((rs, numCheck + 1, wrapAround m rs), (rs, numCheck, m))
      \<in> measure (\<lambda>(rs, numCheck, m). length (nodes m) - numCheck)"
    by simp
next
  fix rs :: "nat list" and numCheck :: nat and m :: Memberlist and x xa
  assume "\<not> length (nodes m) \<le> numCheck"
  then show "((rs, numCheck + 1, m\<lparr>probeIndex := probeIndex m + 1\<rparr>), (rs, numCheck, m))
      \<in> measure (\<lambda>(rs, numCheck, m). length (nodes m) - numCheck)"
    by simp
qed

declare probeLoop.simps [simp del]

definition probe :: "Memberlist \<Rightarrow> nat list \<Rightarrow> Memberlist \<times> ptr option" where
  "probe m rs = probeLoop rs 0 m"

section \<open>Scheduler\<close>

text \<open>
  \<open>time.NewTicker(d)\<close> panics for \<open>d \<le> 0\<close>. A started ticker, together with the goroutine
  \<open>triggerFunc\<close> that runs its handler, is the pair of the activity and the period appended
  to \<open>tickers\<close>. Durations and \<open>GossipNodes\<close> are signed Go integers.
\<close>

datatype panic = Panic string

definition NewTicker :: "int \<Rightarrow> panic + int" where
  "NewTicker d = (if d \<le> 0 then Inl (Panic ''non-positive interval for NewTicker'') else Inr d)"

definition startTicker :: "activity \<Rightarrow> int \<Rightarrow> Memberlist \<Rightarrow> panic + Memberlist" where
  "startTicker f d m =
     (case NewTicker d of
        Inl e \<Rightarrow> Inl e
      | Inr t \<Rightarrow> Inr (m\<lparr>tickers := tickers m @ [(f, t)]\<rparr>))"

definition schedule :: "Memberlist \<Rightarrow> panic + Memberlist" where
  "schedule m =
     (case (if ProbeInterval (config m) > 0
            then startTicker ProbeTick (ProbeInterval (config m)) m else Inr m) of
        Inl e \<Rightarrow> Inl e
      | Inr m1 \<Rightarrow>
          (case (if PushPullInterval (config m1) > 0
                 then startTicker PushPullTick (PushPullInterval (config m1)) m1 else Inr m1) of
             Inl e \<Rightarrow> Inl e
           | Inr m2 \<Rightarrow>
               (if GossipNodes (config m2) > 0
                then startTicker GossipTick (GossipInterval (config m2)) m2 else Inr m2)))"

definition armed :: "panic + Memberlist \<Rightarrow> activity \<Rightarrow> bool" where
  "armed res f = (case res of Inl e \<Rightarrow> False | Inr m \<Rightarrow> f \<in> fst ` set (tickers m))"

section \<open>Ack registry\<close>

text \<open>
  The registry is shared between the goroutine that registers, the goroutine that delivers
  acks and the goroutines of the reap timers, so the model follows the code at the grain of
  its critical sections. A timer is an entry of \<open>ackTimers\<close> under a fresh number. The length
  of the timeout is not represented: a timer may expire at any moment after it was made.
  A registration is one step: \<open>probeNode\<close> sends the ping that can be acked only after
  \<open>setAckChannel\<close> has returned.
\<close>

definition setAckChannel :: "Memberlist \<Rightarrow> uint32 \<Rightarrow> nat \<Rightarrow> int \<Rightarrow> Memberlist" where
  "setAckChannel m seqNo ch timeout =
     (let t = nextTimer m;
          ah = \<lparr>handler = ChanHandler ch, timer = t\<rparr>
      in m\<lparr>ackHandlers := (ackHandlers m)(seqNo \<mapsto> ah),
           ackTimers := (ackTimers m)(t \<mapsto> Armed seqNo (Some ch)),
           nextTimer := t + 1\<rparr>)"

definition setAckHandler :: "Memberlist \<Rightarrow> uint32 \<Rightarrow> nat \<Rightarrow> int \<Rightarrow> Memberlist" where
  "setAckHandler m seqNo fn timeout =
     (let t = nextTimer m;
          ah = \<lparr>handler = UserHandler fn, timer = t\<rparr>
      in m\<lparr>ackHandlers := (ackHandlers m)(seqNo \<mapsto> ah),
           ackTimers := (ackTimers m)(t \<mapsto> Armed seqNo None),
           nextTimer := t + 1\<rparr>)"

text \<open>\<open>ah.handler()\<close>: the call is recorded; the closure of \<open>setAckChannel\<close> then tries to
  send \<open>true\<close> on its channel without blocking.\<close>

definition runHandler :: "uint32 \<Rightarrow> handlerFn \<Rightarrow> Memberlist \<Rightarrow> Memberlist" where
  "runHandler seqNo h m =
     (case h of
        ChanHandler ch \<Rightarrow> emit (ChanSend ch True) (emit (HandlerInvoked seqNo h) m)
      | UserHandler fn \<Rightarrow> emit (HandlerInvoked seqNo h) m)"

text \<open>\<open>timer.Stop()\<close> cancels a timer that has not expired; on an expired timer it returns
  false and the closure still runs. \<open>invokeAckHandler\<close> ignores the result.\<close>

definition timerStop :: "Memberlist \<Rightarrow> nat \<Rightarrow> Memberlist" where
  "timerStop m t =
     (case ackTimers m t of
        Some (Armed seqNo chan) \<Rightarrow> m\<lparr>ackTimers := (ackTimers m)(t := None)\<rparr>
      | _ \<Rightarrow> m)"

text \<open>
  \<open>invokeAckHandler\<close> in its two parts. \<open>ackLocked\<close> is the critical section (l.331-334):
  it returns \<open>ah, ok\<close> as an option and the registry without the entry. \<open>ackUnlocked\<close> is
  the rest (l.335-339), run after the unlock with the values the first part found. Steps of
  other goroutines can come between the two; \<open>invokeAckHandler\<close> itself is the call with
  nothing in between.
\<close>

definition ackLocked :: "Memberlist \<Rightarrow> uint32 \<Rightarrow> ackHandler option \<times> Memberlist" where
  "ackLocked m seqNo = (ackHandlers m seqNo, m\<lparr>ackHandlers := (ackHandlers m)(seqNo := None)\<rparr>)"

definition ackUnlocked :: "Memberlist \<Rightarrow> uint32 \<Rightarrow> ackHandler option \<Rightarrow> Memberlist" where
  "ackUnlocked m seqNo found =
     (case found of
        None \<Rightarrow> m
      | Some ah \<Rightarrow> runHandler seqNo (handler ah) (timerStop m (timer ah)))"

definition invokeAckHandler :: "Memberlist \<Rightarrow> uint32 \<Rightarrow> Memberlist" where
  "invokeAckHandler m seqNo =
     (let (found, m1) = ackLocked m seqNo in ackUnlocked m1 seqNo found)"

text \<open>
  The reap timer: \<open>ackTimerExpire\<close> is the expiry, which starts the closure;
  \<open>ackTimerRun\<close> is the closure's body (l.300-308, l.322-326), the removal of the entry under
  the lock and, for \<open>setAckChannel\<close>, the attempt to send \<open>false\<close>. \<open>ackTimerFire\<close> is an
  expiry with the closure running at once.
\<close>

definition ackTimerExpire :: "Memberlist \<Rightarrow> nat \<Rightarrow> Memberlist" where
  "ackTimerExpire m t =
     (case ackTimers m t of
        Some (Armed seqNo chan) \<Rightarrow> m\<lparr>ackTimers := (ackTimers m)(t \<mapsto> Expired seqNo chan)\<rparr>
      | _ \<Rightarrow> m)"

definition ackTimerRun :: "Memberlist \<Rightarrow> nat \<Rightarrow> Memberlist" where
  "ackTimerRun m t =
     (case ackTimers m t of
        Some (Expired seqNo chan) \<Rightarrow>
          (let m1 = m\<lparr>ackTimers := (ackTimers m)(t := None),
                      ackHandlers := (ackHandlers m)(seqNo := None)\<rparr>
           in case chan of None \<Rightarrow> m1 | Some ch \<Rightarrow> emit (ChanSend ch False) m1)
      | _ \<Rightarrow> m)"

definition ackTimerFire :: "Memberlist \<Rightarrow> nat \<Rightarrow> Memberlist" where
  "ackTimerFire m t = ackTimerRun (ackTimerExpire m t) t"

text \<open>
  Interleavings. A configuration is the state together with the calls of
  \<open>invokeAckHandler\<close> that have left the critical section and not yet run the rest, each
  with its sequence number and what it found. \<open>AckUnlocked i\<close> lets the \<open>i\<close>-th of them
  finish.
\<close>

type_synonym ackCalls = "(uint32 \<times> ackHandler option) list"

datatype ackEvent =
    SetAckChannel uint32 nat int
  | SetAckHandler uint32 nat int
  | InvokeAckHandler uint32
  | AckLocked uint32
  | AckUnlocked nat
  | TimerExpire nat
  | TimerRun nat

fun ackStep :: "Memberlist \<times> ackCalls \<Rightarrow> ackEvent \<Rightarrow> Memberlist \<times> ackCalls" where
  "ackStep (m, cs) (SetAckChannel seqNo ch timeout) = (setAckChannel m seqNo ch timeout, cs)"
| "ackStep (m, cs) (SetAckHandler seqNo fn timeout) = (setAckHandler m seqNo fn timeout, cs)"
| "ackStep (m, cs) (InvokeAckHandler seqNo) = (invokeAckHandler m seqNo, cs)"
| "ackStep (m, cs) (AckLocked seqNo) =
     (let (found, m1) = ackLocked m seqNo in (m1, cs @ [(seqNo, found)]))"
| "ackStep (m, cs) (AckUnlocked i) =
     (if i < length cs
      then (ackUnlocked m (fst (cs ! i)) (snd (cs ! i)), take i cs @ drop (Suc i) cs)
      else (m, cs))"
| "ackStep (m, cs) (TimerExpire t) = (ackTimerExpire m t, cs)"
| "ackStep (m, cs) (TimerRun t) = (ackTimerRun m t, cs)"

fun ackRun :: "Memberlist \<times> ackCalls \<Rightarrow> ackEvent list \<Rightarrow> Memberlist \<times> ackCalls" where
  "ackRun c [] = c"
| "ackRun c (ev # evs) = ackRun (ackStep c ev) evs"

fun registers :: "uint32 \<Rightarrow> ackEvent \<Rightarrow> bool" where
  "registers seqNo (SetAckChannel s ch timeout) = (s = seqNo)"
| "registers seqNo (SetAckHandler s fn timeout) = (s = seqNo)"
| "registers seqNo ev = False"

fun invokes :: "uint32 \<Rightarrow> effect \<Rightarrow> bool" where
  "invokes seqNo (HandlerInvoked s h) = (s = seqNo)"
| "invokes seqNo e = False"

definition registrations :: "uint32 \<Rightarrow> ackEvent list \<Rightarrow> nat" where
  "registrations seqNo evs = length (filter (registers seqNo) evs)"

definition invocations :: "uint32 \<Rightarrow> Memberlist \<Rightarrow> nat" where
  "invocations seqNo m = length (filter (invokes seqNo) (trace m))"

text \<open>1 while a handler is registered under the sequence number, else 0.\<close>

definition pending :: "uint32 \<Rightarrow> Memberlist \<Rightarrow> nat" where
  "pending seqNo m = (case ackHandlers m seqNo of None \<Rightarrow> 0 | Some ah \<Rightarrow> 1)"

text \<open>The calls in progress that hold a handler taken from under the sequence number.\<close>

definition inflight :: "uint32 \<Rightarrow> ackCalls \<Rightarrow> nat" where
  "inflight seqNo cs = length (filter (\<lambda>c. fst c = seqNo \<and> snd c \<noteq> None) cs)"

section \<open>Push/pull\<close>

text \<open>
  \<open>sendAndReceiveState\<close> is the stream transport: \<open>net addr\<close> is what the exchange with
  \<open>addr\<close> returns, an error or the remote state vector (with the draws and clock readings
  that merging it observes). \<open>pushPullNode\<close> returns the new state and its \<open>error\<close> result,
  \<open>None\<close> for \<open>nil\<close>. \<open>picked\<close> is the result of \<open>kRandomNodes(1, excludes, m.nodes)\<close>.
\<close>

type_synonym remoteState = "(pushNodeState \<times> nat \<times> timestamp) list"

definition pushPullNode :: "Memberlist \<Rightarrow> (bytes \<Rightarrow> string + remoteState) \<Rightarrow> bytes
    \<Rightarrow> Memberlist \<times> string option" where
  "pushPullNode m net addr =
     (case net addr of
        Inl err \<Rightarrow> (m, None)
      | Inr remote \<Rightarrow> (mergeState m remote, None))"

definition pushPull :: "Memberlist \<Rightarrow> ptr list \<Rightarrow> (bytes \<Rightarrow> string + remoteState) \<Rightarrow> Memberlist" where
  "pushPull m picked net =
     (case picked of
        [] \<Rightarrow> m
      | node # rest \<Rightarrow>
          (case pushPullNode m net (Addr (heap m ! node)) of
             (m', Some err) \<Rightarrow>
               emit (LogErr (''[ERR] Push/Pull with '' @ Name (heap m' ! node) @ '' failed: '' @ err)) m'
           | (m', None) \<Rightarrow> m'))"

section \<open>Runs of the state machine\<close>

datatype event =
    AliveEv alive nat timestamp
  | SuspectEv suspect timestamp
  | DeadEv dead timestamp
  | MergeEv remoteState
  | TimerEv ptr timestamp timestamp
  | ResetEv "nat list"

fun step :: "Memberlist \<Rightarrow> event \<Rightarrow> Memberlist" where
  "step m (AliveEv a r now) = aliveNode m a r now"
| "step m (SuspectEv s now) = suspectNode m s now"
| "step m (DeadEv d now) = deadNode m d now"
| "step m (MergeEv remote) = mergeState m remote"
| "step m (TimerEv state changeTime now) = suspicionTimerFire m state changeTime now"
| "step m (ResetEv rs) = wrapAround m rs"

fun run :: "Memberlist \<Rightarrow> event list \<Rightarrow> Memberlist" where
  "run m [] = m"
| "run m (e # es) = run (step m e) es"

text \<open>The clock readings an event observes.\<close>

fun readings :: "event \<Rightarrow> timestamp set" where
  "readings (AliveEv a r now) = {now}"
| "readings (SuspectEv s now) = {now}"
| "readings (DeadEv d now) = {now}"
| "readings (MergeEv remote) = (\<lambda>(r, rnd, now). now) ` set remote"
| "readings (TimerEv state changeTime now) = {now}"
| "readings (ResetEv rs) = {}"

text \<open>Some step of the run changes the \<open>State\<close> field of the record at \<open>p\<close>.\<close>

fun transitions :: "ptr \<Rightarrow> Memberlist \<Rightarrow> event list \<Rightarrow> bool" where
  "transitions p m [] = False"
| "transitions p m (e # es) =
     (State (heap (step m e) ! p) \<noteq> State (heap m ! p) \<or> transitions p (step m e) es)"

text \<open>An event that carries an Alive about \<open>n\<close> with a non-zero incarnation.\<close>

fun revives :: "string \<Rightarrow> event \<Rightarrow> bool" where
  "revives n (AliveEv a r now) = (alive_Node a = n \<and> alive_Incarnation a \<noteq> 0)"
| "revives n (MergeEv remote) =
     (\<exists>(r, rnd, now) \<in> set remote.
        push_Name r = n \<and> push_State r = StateAlive \<and> push_Incarnation r \<noteq> 0)"
| "revives n e = False"

section \<open>Invariant of the node table\<close>

text \<open>
  I1 of the data model: the sequence has no duplicates, its pointers are allocated, the
  mapping sends the name of every record of the sequence to that record and has no other
  key.
\<close>

definition I1 :: "Memberlist \<Rightarrow> bool" where
  "I1 m \<longleftrightarrow>
     distinct (nodes m) \<and>
     (\<forall>p \<in> set (nodes m). p < length (heap m) \<and> nodeMap m (Name (heap m ! p)) = Some p) \<and>
     dom (nodeMap m) = (\<lambda>p. Name (heap m ! p)) ` set (nodes m)"

text \<open>The invariant of the reachable tables: I1, and the local node's own record is never
  Suspect.\<close>

definition table_inv :: "Memberlist \<Rightarrow> bool" where
  "table_inv m \<longleftrightarrow>
     I1 m \<and>
     (\<forall>p \<in> set (nodes m). Name (heap m ! p) = Config_Name (config m)
          \<longrightarrow> State (heap m ! p) \<noteq> StateSuspect)"

definition init :: "Config \<Rightarrow> Memberlist" where
  "init c =
     \<lparr>config = c, leave = False, incarnation = 0, sequenceNum = 0, heap = [], nodes = [],
      nodeMap = Map.empty, probeIndex = 0, ackHandlers = Map.empty, ackTimers = Map.empty,
      nextTimer = 0, tickers = [], trace = []\<rparr>"

section \<open>Example states\<close>

definition ex_config :: Config where
  "ex_config = \<lparr>Config_Name = ''self'', ProbeInterval = 1000, PushPullInterval = 30000,
      GossipInterval = 200, GossipNodes = 3\<rparr>"

definition ex_alive :: "string \<Rightarrow> uint32 \<Rightarrow> alive" where
  "ex_alive n i = \<lparr>alive_Incarnation = i, alive_Node = n, alive_Addr = [10, 0, 0, 1], alive_Meta = []\<rparr>"

text \<open>The local node after it announced itself with incarnation 5.\<close>

definition ex_self :: Memberlist where
  "ex_self = aliveNode ((init ex_config)\<lparr>incarnation := 5\<rparr>) (ex_alive ''self'' 5) 0 1"

definition ex_left :: Memberlist where
  "ex_left = deadNode (ex_self\<lparr>leave := True\<rparr>) \<lparr>dead_Incarnation = 5, dead_Node = ''self''\<rparr> 2"


text \<open>The table of the spec's reset scenario: Alive a, Dead x, Alive b, Dead y, Suspect c,
  with the probe index at the end of the sequence.\<close>

definition ex_table :: Memberlist where
  "ex_table = (init ex_config)\<lparr>
      heap := [\<lparr>Name = ''a'', Addr = [10, 0, 0, 2], Meta = [], Incarnation = 1, State = StateAlive, StateChange = 1\<rparr>,
               \<lparr>Name = ''x'', Addr = [10, 0, 0, 3], Meta = [], Incarnation = 1, State = StateDead, StateChange = 5\<rparr>,
               \<lparr>Name = ''b'', Addr = [10, 0, 0, 4], Meta = [], Incarnation = 7, State = StateAlive, StateChange = 2\<rparr>,
               \<lparr>Name = ''y'', Addr = [10, 0, 0, 5], Meta = [], Incarnation = 2, State = StateDead, StateChange = 6\<rparr>,
               \<lparr>Name = ''c'', Addr = [10, 0, 0, 6], Meta = [], Incarnation = 3, State = StateSuspect, StateChange = 7\<rparr>],
      nodes := [0, 1, 2, 3, 4],
      nodeMap := [''a'' \<mapsto> 0, ''x'' \<mapsto> 1, ''b'' \<mapsto> 2, ''y'' \<mapsto> 3, ''c'' \<mapsto> 4],
      probeIndex := 5\<rparr>"

text \<open>A peer b, known with incarnation 7 and then suspected.\<close>

definition ex_suspect :: Memberlist where
  "ex_suspect = suspectNode (aliveNode ex_self (ex_alive ''b'' 7) 0 2)
      \<lparr>suspect_Incarnation = 7, suspect_Node = ''b''\<rparr> 3"

text \<open>A restarted node: it takes its first incarnation from the counter and announces
  itself; the cluster still reports it Alive with incarnation 10, from before the restart,
  and then suspects it.\<close>

definition ex_started :: Memberlist where
  "ex_started = (let (inc, m1) = nextIncarnation (init ex_config)
                 in aliveNode m1 (ex_alive ''self'' inc) 0 1)"

definition ex_rejoin :: "event list" where
  "ex_rejoin = [AliveEv (ex_alive ''self'' 10) 0 2,
                SuspectEv \<lparr>suspect_Incarnation = 10, suspect_Node = ''self''\<rparr> 3]"

text \<open>The local node and an Alive peer b; then b is refuted with incarnation 8 and suspected
  again.\<close>

definition ex_peer :: Memberlist where
  "ex_peer = aliveNode ex_self (ex_alive ''b'' 7) 0 2"

definition ex_epochs :: "event list" where
  "ex_epochs = [AliveEv (ex_alive ''b'' 8) 0 4,
                SuspectEv \<lparr>suspect_Incarnation = 8, suspect_Node = ''b''\<rparr> 5]"

text \<open>Two Alive peers, neither of them the local node, with the probe index at the first.\<close>

definition ex_peers :: Memberlist where
  "ex_peers = (init ex_config)\<lparr>
      heap := [\<lparr>Name = ''b'', Addr = [10, 0, 0, 2], Meta = [], Incarnation = 1, State = StateAlive, StateChange = 1\<rparr>,
               \<lparr>Name = ''c'', Addr = [10, 0, 0, 3], Meta = [], Incarnation = 1, State = StateAlive, StateChange = 2\<rparr>],
      nodes := [0, 1],
      nodeMap := [''b'' \<mapsto> 0, ''c'' \<mapsto> 1]\<rparr>"

text \<open>A configuration with a gossip period but no gossip fan-out.\<close>

definition ex_nogossip :: Memberlist where
  "ex_nogossip = init (ex_config\<lparr>GossipNodes := 0\<rparr>)"

text \<open>One registration, its ack, the expiry of its reap timer, and a second ack.\<close>

definition ex_acks :: "ackEvent list" where
  "ex_acks = [SetAckChannel 1 0 1000, InvokeAckHandler 1, TimerExpire 0, TimerRun 0,
              InvokeAckHandler 1]"

text \<open>One registration whose reap timer expires and runs while the ack for it is between
  the unlock and \<open>timer.Stop()\<close>.\<close>

definition ex_race :: "ackEvent list" where
  "ex_race = [SetAckChannel 1 0 1000, AckLocked 1, TimerExpire 0, TimerRun 0, AckUnlocked 0]"

text \<open>The peer b of \<open>ex_suspect\<close> is refuted with incarnation 8 and suspected again, and the
  clock reading of the second suspicion is the one of the first.\<close>

definition ex_clash :: "event list" where
  "ex_clash = [AliveEv (ex_alive ''b'' 8) 0 4,
               SuspectEv \<lparr>suspect_Incarnation = 8, suspect_Node = ''b''\<rparr> 3]"

section \<open>Basic facts about the operations\<close>

lemmas sm_defs = suspectNode_def deadNode_def refute_def nextIncarnation_def
  encodeAndBroadcast_def emit_def Let_def

lemma nth_update_if: "xs[p := v] ! q = (if p = q \<and> p < length xs then v else xs ! q)"
  by (cases "p < length xs") (simp_all add: nth_list_update list_update_beyond)

text \<open>The part of aliveNode after the lookup.\<close>

lemma State_same: "State r = v \<Longrightarrow> r\<lparr>State := v\<rparr> = r"
  by auto

lemma suspectNode_frame:
  "nodes (suspectNode m s now) = nodes m"
  "nodeMap (suspectNode m s now) = nodeMap m"
  "config (suspectNode m s now) = config m"
  "leave (suspectNode m s now) = leave m"
  "probeIndex (suspectNode m s now) = probeIndex m"
  "length (heap (suspectNode m s now)) = length (heap m)"
  by (simp_all add: sm_defs split: option.splits)

lemma deadNode_frame:
  "nodes (deadNode m d now) = nodes m"
  "nodeMap (deadNode m d now) = nodeMap m"
  "config (deadNode m d now) = config m"
  "leave (deadNode m d now) = leave m"
  "probeIndex (deadNode m d now) = probeIndex m"
  "length (heap (deadNode m d now)) = length (heap m)"
  by (simp_all add: sm_defs split: option.splits)

lemma suspectNode_other:
  "nodeMap m (suspect_Node s) \<noteq> Some q \<Longrightarrow> heap (suspectNode m s now) ! q = heap m ! q"
  by (auto simp add: sm_defs split: option.splits)

lemma deadNode_other:
  "nodeMap m (dead_Node d) \<noteq> Some q \<Longrightarrow> heap (deadNode m d now) ! q = heap m ! q"
  by (auto simp add: sm_defs split: option.splits)

lemma suspectNode_Name: "Name (heap (suspectNode m s now) ! q) = Name (heap m ! q)"
  by (simp add: sm_defs nth_update_if split: option.splits)

lemma deadNode_Name: "Name (heap (deadNode m d now) ! q) = Name (heap m ! q)"
  by (simp add: sm_defs nth_update_if split: option.splits)

lemma suspectNode_self:
  "Name (heap m ! q) = Config_Name (config m) \<Longrightarrow> State (heap m ! q) \<noteq> StateSuspect
    \<Longrightarrow> State (heap (suspectNode m s now) ! q) \<noteq> StateSuspect"
  by (simp add: sm_defs nth_update_if split: option.splits)

lemma deadNode_self:
  "State (heap m ! q) \<noteq> StateSuspect
    \<Longrightarrow> State (heap (deadNode m d now) ! q) \<noteq> StateSuspect"
  by (simp add: sm_defs nth_update_if split: option.splits)

lemma refute_eq:
  "refute m p n =
     m\<lparr>incarnation := incarnation m + 1,
       trace := trace m @ [Broadcast n (aliveMsg \<lparr>alive_Incarnation = incarnation m + 1,
          alive_Node = Name (heap m ! p), alive_Addr = Addr (heap m ! p),
          alive_Meta = Meta (heap m ! p)\<rparr>)],
       heap := (heap m)[p := (heap m ! p)\<lparr>Incarnation := incarnation m + 1\<rparr>]\<rparr>"
  by (simp add: refute_def nextIncarnation_def encodeAndBroadcast_def Let_def)

lemma randomOffset_le: "randomOffset n r \<le> n"
  by (simp add: randomOffset_def)

lemma insertNode_fields:
  "heap (fst (insertNode m a r)) = heap m @ [newNodeState a]"
  "nodeMap (fst (insertNode m a r)) = (nodeMap m)(alive_Node a \<mapsto> length (heap m))"
  "snd (insertNode m a r) = length (heap m)"
  "config (fst (insertNode m a r)) = config m"
  "leave (fst (insertNode m a r)) = leave m"
  "trace (fst (insertNode m a r)) = trace m"
  "incarnation (fst (insertNode m a r)) = incarnation m"
  "probeIndex (fst (insertNode m a r)) = probeIndex m"
  "length (nodes (fst (insertNode m a r))) = Suc (length (nodes m))"
  by (simp_all add: insertNode_def Let_def)

lemma insertNode_mset:
  "mset (nodes (fst (insertNode m a r))) = add_mset (length (heap m)) (mset (nodes m))"
proof -
  let ?ns = "nodes m @ [length (heap m)]"
  have "mset (?ns[randomOffset (length (nodes m)) r := ?ns ! length (nodes m),
                  length (nodes m) := ?ns ! randomOffset (length (nodes m)) r]) = mset ?ns"
    by (rule mset_swap) (simp_all add: randomOffset_le less_Suc_eq_le)
  then show ?thesis by (simp add: insertNode_def Let_def)
qed

lemma insertNode_set:
  "set (nodes (fst (insertNode m a r))) = insert (length (heap m)) (set (nodes m))"
  using arg_cong[OF insertNode_mset, of set_mset m a r] by simp

lemma aliveNode_known:
  "nodeMap m (alive_Node a) = Some p \<Longrightarrow>
   aliveNode m a r now =
     (if alive_Incarnation a \<le> Incarnation (heap m ! p) then m
      else (if State (heap m ! p) = StateDead then emit (JoinNotify p) else id)
        (m\<lparr>trace := trace m @ [Broadcast (alive_Node a) (aliveMsg a)],
           heap := (heap m)[p := (heap m ! p)\<lparr>Incarnation := alive_Incarnation a,
              State := StateAlive,
              StateChange := if State (heap m ! p) \<noteq> StateAlive then now
                             else StateChange (heap m ! p)\<rparr>]\<rparr>))"
  by (simp add: aliveNode_def encodeAndBroadcast_def Let_def State_same)

lemma aliveNode_unknown:
  "nodeMap m (alive_Node a) = None \<Longrightarrow>
   aliveNode m a r now =
     (let m1 = fst (insertNode m a r); p = length (heap m)
      in if alive_Incarnation a = 0 then m1
         else emit (JoinNotify p)
           (m1\<lparr>trace := trace m @ [Broadcast (alive_Node a) (aliveMsg a)],
               heap := (heap m1)[p := (newNodeState a)\<lparr>Incarnation := alive_Incarnation a,
                                     State := StateAlive, StateChange := now\<rparr>]\<rparr>))"
  by (simp add: aliveNode_def encodeAndBroadcast_def Let_def insertNode_def newNodeState_def
      split_beta)

lemma aliveNode_other:
  "nodeMap m (alive_Node a) \<noteq> Some q \<Longrightarrow> q < length (heap m)
    \<Longrightarrow> heap (aliveNode m a r now) ! q = heap m ! q"
  by (cases "nodeMap m (alive_Node a)")
     (auto simp: aliveNode_known aliveNode_unknown Let_def emit_def insertNode_fields
        nth_update_if nth_append)

lemma aliveNode_length: "length (heap m) \<le> length (heap (aliveNode m a r now))"
  by (cases "nodeMap m (alive_Node a)")
     (auto simp: aliveNode_known aliveNode_unknown Let_def emit_def insertNode_fields)

lemma aliveNode_Name:
  "p < length (heap m) \<Longrightarrow> Name (heap (aliveNode m a r now) ! p) = Name (heap m ! p)"
  by (cases "nodeMap m (alive_Node a)")
     (simp_all add: aliveNode_known aliveNode_unknown emit_def nth_update_if Let_def
        insertNode_fields nth_append newNodeState_def)

lemma aliveNode_config: "config (aliveNode m a r now) = config m"
  by (cases "nodeMap m (alive_Node a)")
     (simp_all add: aliveNode_known aliveNode_unknown emit_def Let_def insertNode_fields)

lemma mergeState_length: "length (heap m) \<le> length (heap (mergeState m remote))"
proof (induction m remote rule: mergeState.induct)
  case (1 m)
  then show ?case by simp
next
  case (2 m r rnd now remote)
  then show ?case
    by (auto simp: suspectNode_frame deadNode_frame intro: order_trans[OF aliveNode_length])
qed

lemma fold_swap_mset:
  assumes "\<And>i. i \<in> set is \<Longrightarrow> g i \<le> i"
    and "\<forall>i \<in> set is. i < length xs"
  shows "mset (fold (\<lambda>i xs. xs[i := xs ! g i, g i := xs ! i]) is xs) = mset xs"
  using assms
proof (induction "is" arbitrary: xs)
  case Nil
  then show ?case by simp
next
  case (Cons i "is")
  let ?ys = "xs[i := xs ! g i, g i := xs ! i]"
  have i: "i < length xs" using Cons.prems by simp
  have gi: "g i < length xs" using Cons.prems(1)[of i] i by simp
  note i = i gi
  have "mset (fold (\<lambda>i xs. xs[i := xs ! g i, g i := xs ! i]) is ?ys) = mset ?ys"
    using Cons.prems by (intro Cons.IH) simp_all
  also have "mset ?ys = mset xs"
    using i by (simp add: mset_swap)
  finally show ?case by simp
qed

lemma shuffleNodes_mset: "mset (shuffleNodes rs ns) = mset ns"
proof -
  have "mset (fold (\<lambda>i xs. xs[i := xs ! ((if i < length rs then rs ! i else 0) mod (i + 1)),
           (if i < length rs then rs ! i else 0) mod (i + 1) := xs ! i]) [0..<length ns] ns) = mset ns"
    by (rule fold_swap_mset) (simp_all add: less_Suc_eq_le[symmetric])
  then show ?thesis by (simp add: shuffleNodes_def Let_def)
qed

lemma fold_delete:
  "fold (\<lambda>p nm. nm(f p := None)) ps nm k = (if k \<in> f ` set ps then None else nm k)"
  by (induction ps arbitrary: nm) auto

lemma resetNodes_fields:
  "heap (resetNodes m rs) = heap m"
  "config (resetNodes m rs) = config m"
  "trace (resetNodes m rs) = trace m"
  "leave (resetNodes m rs) = leave m"
  "nodes (resetNodes m rs) = shuffleNodes rs (filter (\<lambda>p. State (heap m ! p) \<noteq> StateDead) (nodes m))"
  "nodeMap (resetNodes m rs) k =
     (if k \<in> (\<lambda>p. Name (heap m ! p)) ` {p \<in> set (nodes m). State (heap m ! p) = StateDead}
      then None else nodeMap m k)"
  by (simp_all add: resetNodes_def moveDeadNodes_def fold_delete)

lemma resetNodes_mset:
  "mset (nodes (resetNodes m rs)) = mset (filter (\<lambda>p. State (heap m ! p) \<noteq> StateDead) (nodes m))"
  by (simp add: resetNodes_fields shuffleNodes_mset)

lemma resetNodes_set:
  "set (nodes (resetNodes m rs)) = {p \<in> set (nodes m). State (heap m ! p) \<noteq> StateDead}"
  using arg_cong[OF resetNodes_mset, of set_mset m rs] by simp

lemma wrapAround_fields:
  "heap (wrapAround m rs) = heap m"
  "nodes (wrapAround m rs) = nodes (resetNodes m rs)"
  "nodeMap (wrapAround m rs) = nodeMap (resetNodes m rs)"
  "config (wrapAround m rs) = config m"
  "trace (wrapAround m rs) = trace m"
  "probeIndex (wrapAround m rs) = 0"
  by (simp_all add: wrapAround_def resetNodes_fields)

lemma step_length: "length (heap m) \<le> length (heap (step m e))"
  by (cases e)
     (simp_all add: aliveNode_length suspectNode_frame deadNode_frame mergeState_length
        suspicionTimerFire_def suspectTimeout_def wrapAround_fields)

section \<open>The invariant is preserved\<close>

lemma table_inv_alt:
  "table_inv m \<longleftrightarrow>
     distinct (nodes m) \<and>
     (\<forall>p \<in> set (nodes m). p < length (heap m) \<and> nodeMap m (Name (heap m ! p)) = Some p) \<and>
     dom (nodeMap m) = (\<lambda>p. Name (heap m ! p)) ` set (nodes m) \<and>
     (\<forall>p \<in> set (nodes m). Name (heap m ! p) = Config_Name (config m)
          \<longrightarrow> State (heap m ! p) \<noteq> StateSuspect)"
  by (simp add: table_inv_def I1_def conj_assoc)

lemma table_inv_I1: "table_inv m \<Longrightarrow> I1 m"
  by (simp add: table_inv_def)

lemma table_inv_frame:
  assumes "table_inv m"
    and "nodes m' = nodes m" "nodeMap m' = nodeMap m" "config m' = config m"
    and "length (heap m') = length (heap m)"
    and "\<And>q. q \<in> set (nodes m) \<Longrightarrow> Name (heap m' ! q) = Name (heap m ! q)"
    and "\<And>q. q \<in> set (nodes m) \<Longrightarrow> Name (heap m ! q) = Config_Name (config m)
            \<Longrightarrow> State (heap m' ! q) \<noteq> StateSuspect"
  shows "table_inv m'"
  using assms unfolding table_inv_alt by simp

lemma table_inv_update:
  assumes inv: "table_inv m"
    and v: "Name v = Name (heap m ! p)" "State v \<noteq> StateSuspect"
    and m': "nodes m' = nodes m" "nodeMap m' = nodeMap m" "config m' = config m"
      "heap m' = (heap m)[p := v]"
  shows "table_inv m'"
proof (rule table_inv_frame[OF inv])
  fix q assume "q \<in> set (nodes m)" "Name (heap m ! q) = Config_Name (config m)"
  then have "State (heap m ! q) \<noteq> StateSuspect"
    using inv by (simp add: table_inv_alt)
  then show "State (heap m' ! q) \<noteq> StateSuspect"
    using v by (simp add: m' nth_update_if)
qed (simp_all add: m' nth_update_if v)

lemma table_inv_lookup:
  assumes "table_inv m" "nodeMap m n = Some p"
  shows "p \<in> set (nodes m)" "p < length (heap m)" "Name (heap m ! p) = n"
proof -
  from assms have "n \<in> (\<lambda>p. Name (heap m ! p)) ` set (nodes m)"
    unfolding table_inv_alt by (metis domI)
  then obtain q where q: "q \<in> set (nodes m)" "n = Name (heap m ! q)" by blast
  with assms have "nodeMap m n = Some q" "q < length (heap m)"
    by (simp_all add: table_inv_alt)
  with assms q show "p \<in> set (nodes m)" "p < length (heap m)" "Name (heap m ! p) = n"
    by simp_all
qed

lemma table_inv_suspectNode:
  assumes "table_inv m" shows "table_inv (suspectNode m s now)"
proof (rule table_inv_frame[OF assms])
  fix q assume "q \<in> set (nodes m)" "Name (heap m ! q) = Config_Name (config m)"
  with assms show "State (heap (suspectNode m s now) ! q) \<noteq> StateSuspect"
    by (intro suspectNode_self) (simp_all add: table_inv_alt)
qed (simp_all add: suspectNode_frame suspectNode_Name)

lemma table_inv_deadNode:
  assumes "table_inv m" shows "table_inv (deadNode m d now)"
proof (rule table_inv_frame[OF assms])
  fix q assume "q \<in> set (nodes m)" "Name (heap m ! q) = Config_Name (config m)"
  with assms show "State (heap (deadNode m d now) ! q) \<noteq> StateSuspect"
    by (intro deadNode_self) (simp_all add: table_inv_alt)
qed (simp_all add: deadNode_frame deadNode_Name)

lemma table_inv_insertNode:
  assumes inv: "table_inv m" and new: "nodeMap m (alive_Node a) = None"
  shows "table_inv (fst (insertNode m a r))"
proof -
  let ?m' = "fst (insertNode m a r)" and ?p = "length (heap m)"
  have fresh: "?p \<notin> set (nodes m)"
    using inv by (auto simp: table_inv_alt)
  have old: "q < ?p" "nodeMap m (Name (heap m ! q)) = Some q" if "q \<in> set (nodes m)" for q
    using inv that by (simp_all add: table_inv_alt)
  have names: "Name (heap m ! q) \<noteq> alive_Node a" if "q \<in> set (nodes m)" for q
    using old(2)[OF that] new by auto
  have d: "distinct (nodes ?m')"
    using inv fresh mset_eq_imp_distinct_iff[of "nodes ?m'" "?p # nodes m"]
    by (simp add: insertNode_mset table_inv_alt)
  have 2: "\<forall>q \<in> set (nodes ?m'). q < length (heap ?m') \<and> nodeMap ?m' (Name (heap ?m' ! q)) = Some q"
    by (simp add: insertNode_fields insertNode_set nth_append newNodeState_def old names less_SucI)
  have 3: "dom (nodeMap ?m') = (\<lambda>q. Name (heap ?m' ! q)) ` set (nodes ?m')"
  proof -
    have "(\<lambda>q. Name (heap ?m' ! q)) ` set (nodes m) = (\<lambda>q. Name (heap m ! q)) ` set (nodes m)"
      by (intro image_cong) (simp_all add: insertNode_fields nth_append old)
    then show ?thesis
      using inv by (simp add: insertNode_fields insertNode_set table_inv_alt newNodeState_def)
  qed
  have 4: "\<forall>q \<in> set (nodes ?m'). Name (heap ?m' ! q) = Config_Name (config ?m')
            \<longrightarrow> State (heap ?m' ! q) \<noteq> StateSuspect"
    using inv by (simp add: insertNode_fields insertNode_set nth_append newNodeState_def table_inv_alt old)
  from d 2 3 4 show ?thesis
    unfolding table_inv_alt by blast
qed

lemma table_inv_aliveNode:
  assumes inv: "table_inv m" shows "table_inv (aliveNode m a r now)"
proof (cases "nodeMap m (alive_Node a)")
  case (Some p)
  show ?thesis
  proof (cases "alive_Incarnation a \<le> Incarnation (heap m ! p)")
    case True
    then show ?thesis by (simp add: aliveNode_known[OF Some] inv)
  next
    case False
    then show ?thesis
      by (intro table_inv_update[OF inv, where p = p and v = "(heap m ! p)\<lparr>Incarnation := alive_Incarnation a,
              State := StateAlive,
              StateChange := if State (heap m ! p) \<noteq> StateAlive then now
                             else StateChange (heap m ! p)\<rparr>"])
         (simp_all add: aliveNode_known[OF Some] emit_def)
  qed
next
  case None
  let ?m1 = "fst (insertNode m a r)"
  have inv1: "table_inv ?m1" by (rule table_inv_insertNode[OF inv None])
  show ?thesis
  proof (cases "alive_Incarnation a = 0")
    case True
    then show ?thesis by (simp add: aliveNode_unknown[OF None] inv1)
  next
    case False
    have "table_inv (emit (JoinNotify (length (heap m)))
           (?m1\<lparr>trace := trace m @ [Broadcast (alive_Node a) (aliveMsg a)],
               heap := (heap ?m1)[length (heap m) := (newNodeState a)\<lparr>Incarnation := alive_Incarnation a,
                                     State := StateAlive, StateChange := now\<rparr>]\<rparr>))"
      by (rule table_inv_update[OF inv1, where p = "length (heap m)" and
            v = "(newNodeState a)\<lparr>Incarnation := alive_Incarnation a,
                                     State := StateAlive, StateChange := now\<rparr>"])
         (simp_all add: emit_def insertNode_fields(1))
    with False show ?thesis
      by (simp add: aliveNode_unknown[OF None] Let_def)
  qed
qed

lemma table_inv_mergeState: "table_inv m \<Longrightarrow> table_inv (mergeState m remote)"
  by (induction m remote rule: mergeState.induct)
     (simp_all add: table_inv_aliveNode table_inv_suspectNode table_inv_deadNode)

lemma table_inv_init: "table_inv (init c)"
  by (simp add: table_inv_alt init_def)

lemma table_inv_suspicionTimerFire: "table_inv m \<Longrightarrow> table_inv (suspicionTimerFire m p ct now)"
  by (simp add: suspicionTimerFire_def suspectTimeout_def table_inv_deadNode)

lemma I1_names_inj:
  assumes "I1 m" "p \<in> set (nodes m)" "q \<in> set (nodes m)"
    "Name (heap m ! p) = Name (heap m ! q)"
  shows "p = q"
  using assms unfolding I1_def by (metis option.inject)

lemma I1_resetNodes:
  assumes inv: "I1 m" shows "I1 (resetNodes m rs)"
proof -
  let ?m' = "resetNodes m rs"
  let ?dead = "{p \<in> set (nodes m). State (heap m ! p) = StateDead}"
  have live: "Name (heap m ! p) \<notin> (\<lambda>p. Name (heap m ! p)) ` ?dead"
    if "p \<in> set (nodes ?m')" for p
  proof
    assume "Name (heap m ! p) \<in> (\<lambda>p. Name (heap m ! p)) ` ?dead"
    then obtain q where q: "q \<in> set (nodes m)" "State (heap m ! q) = StateDead"
      "Name (heap m ! p) = Name (heap m ! q)" by auto
    from that have p: "p \<in> set (nodes m)" "State (heap m ! p) \<noteq> StateDead"
      by (simp_all add: resetNodes_set)
    from I1_names_inj[OF inv p(1) q(1) q(3)] p(2) q(2) show False by simp
  qed
  have 1: "distinct (nodes ?m')"
    using inv mset_eq_imp_distinct_iff[OF resetNodes_mset, of m rs]
    by (simp add: I1_def)
  have 2: "\<forall>p \<in> set (nodes ?m'). p < length (heap ?m') \<and> nodeMap ?m' (Name (heap ?m' ! p)) = Some p"
  proof
    fix p assume p: "p \<in> set (nodes ?m')"
    then have "p \<in> set (nodes m)" by (simp add: resetNodes_set)
    with inv have "p < length (heap m)" "nodeMap m (Name (heap m ! p)) = Some p"
      by (simp_all add: I1_def)
    with live[OF p]
    show "p < length (heap ?m') \<and> nodeMap ?m' (Name (heap ?m' ! p)) = Some p"
      by (simp add: resetNodes_fields)
  qed
  have 3: "dom (nodeMap ?m') = (\<lambda>p. Name (heap ?m' ! p)) ` set (nodes ?m')"
  proof (intro set_eqI iffI)
    fix k assume "k \<in> dom (nodeMap ?m')"
    then have k: "k \<notin> (\<lambda>p. Name (heap m ! p)) ` ?dead" "k \<in> dom (nodeMap m)"
      by (auto simp: resetNodes_fields dom_def split: if_splits)
    with inv obtain p where p: "p \<in> set (nodes m)" "k = Name (heap m ! p)"
      unfolding I1_def by blast
    with k(1) have "State (heap m ! p) \<noteq> StateDead" by blast
    with p show "k \<in> (\<lambda>p. Name (heap ?m' ! p)) ` set (nodes ?m')"
      by (simp add: resetNodes_fields(1) resetNodes_set)
  next
    fix k assume "k \<in> (\<lambda>p. Name (heap ?m' ! p)) ` set (nodes ?m')"
    then obtain p where p: "p \<in> set (nodes ?m')" "k = Name (heap ?m' ! p)" by blast
    with 2 show "k \<in> dom (nodeMap ?m')" by auto
  qed
  from 1 2 3 show ?thesis unfolding I1_def by blast
qed

lemma table_inv_resetNodes:
  assumes inv: "table_inv m" shows "table_inv (resetNodes m rs)"
proof -
  have "\<forall>p \<in> set (nodes (resetNodes m rs)).
          Name (heap (resetNodes m rs) ! p) = Config_Name (config (resetNodes m rs))
            \<longrightarrow> State (heap (resetNodes m rs) ! p) \<noteq> StateSuspect"
    using inv by (simp add: resetNodes_fields(1,2) resetNodes_set table_inv_def)
  with I1_resetNodes[OF table_inv_I1[OF inv], of rs] show ?thesis
    by (simp add: table_inv_def)
qed

lemma I1_wrapAround: "I1 m \<Longrightarrow> I1 (wrapAround m rs)"
  using I1_resetNodes[of m rs]
  by (simp add: I1_def wrapAround_fields resetNodes_fields(1))

lemma table_inv_wrapAround: "table_inv m \<Longrightarrow> table_inv (wrapAround m rs)"
  using table_inv_resetNodes[of m rs]
  by (simp add: table_inv_alt wrapAround_fields resetNodes_fields(1,2))

lemma table_inv_step: "table_inv m \<Longrightarrow> table_inv (step m e)"
  by (cases e)
     (simp_all add: table_inv_aliveNode table_inv_suspectNode table_inv_deadNode
        table_inv_mergeState table_inv_suspicionTimerFire table_inv_wrapAround)

lemma table_inv_run: "table_inv m \<Longrightarrow> table_inv (run m es)"
  by (induction es arbitrary: m) (simp_all add: table_inv_step)

section \<open>Records along runs\<close>

lemma suspectNode_dead:
  "State (heap m ! p) = StateDead \<Longrightarrow> heap (suspectNode m s now) ! p = heap m ! p"
  by (cases "nodeMap m (suspect_Node s) = Some p")
     (simp_all add: suspectNode_other, simp add: suspectNode_def Let_def)

lemma deadNode_dead:
  "State (heap m ! p) = StateDead \<Longrightarrow> heap (deadNode m d now) ! p = heap m ! p"
  by (cases "nodeMap m (dead_Node d) = Some p")
     (simp_all add: deadNode_other, simp add: deadNode_def Let_def)

lemma aliveNode_dead:
  assumes "table_inv m" "p < length (heap m)" "Incarnation (heap m ! p) = 0"
    and "\<not> (alive_Node a = Name (heap m ! p) \<and> alive_Incarnation a \<noteq> 0)"
  shows "heap (aliveNode m a r now) ! p = heap m ! p"
proof (cases "nodeMap m (alive_Node a) = Some p")
  case True
  with assms table_inv_lookup(3)[OF assms(1) True] show ?thesis
    by (simp add: aliveNode_known)
next
  case False
  with assms(2) show ?thesis by (simp add: aliveNode_other)
qed

lemma mergeState_dead:
  assumes "table_inv m" "p < length (heap m)" "State (heap m ! p) = StateDead"
    "Incarnation (heap m ! p) = 0"
    and "\<not> revives (Name (heap m ! p)) (MergeEv remote)"
  shows "heap (mergeState m remote) ! p = heap m ! p"
  using assms
proof (induction m remote rule: mergeState.induct)
  case (1 m)
  then show ?case by simp
next
  case (2 m r rnd now remote)
  let ?a = "\<lparr>alive_Incarnation = push_Incarnation r, alive_Node = push_Name r,
             alive_Addr = push_Addr r, alive_Meta = push_Meta r\<rparr>"
  let ?s = "\<lparr>suspect_Incarnation = push_Incarnation r, suspect_Node = push_Name r\<rparr>"
  let ?d = "\<lparr>dead_Incarnation = push_Incarnation r, dead_Node = push_Name r\<rparr>"
  have rest: "\<not> revives (Name (heap m ! p)) (MergeEv remote)"
    using "2.prems"(5) by simp
  have hd: "push_State r = StateAlive \<Longrightarrow>
    \<not> (alive_Node ?a = Name (heap m ! p) \<and> alive_Incarnation ?a \<noteq> 0)"
    using "2.prems"(5) by auto
  have a: "heap (aliveNode m ?a rnd now) ! p = heap m ! p" if "push_State r = StateAlive"
    using "2.prems" hd[OF that] by (intro aliveNode_dead) simp_all
  have s: "heap (suspectNode m ?s now) ! p = heap m ! p"
    using "2.prems" by (intro suspectNode_dead) simp
  have d: "heap (deadNode m ?d now) ! p = heap m ! p"
    using "2.prems" by (intro deadNode_dead) simp
  show ?case
    using "2.prems" "2.IH" rest a s d
    by (auto simp: table_inv_aliveNode table_inv_suspectNode table_inv_deadNode
        suspectNode_frame deadNode_frame
        intro: less_le_trans[OF _ aliveNode_length])
qed

lemma step_dead:
  assumes "table_inv m" "p < length (heap m)" "State (heap m ! p) = StateDead"
    "Incarnation (heap m ! p) = 0"
    and "\<not> revives (Name (heap m ! p)) e"
  shows "heap (step m e) ! p = heap m ! p"
proof (cases e)
  case (AliveEv a r now)
  with assms show ?thesis by (simp add: aliveNode_dead)
next
  case (SuspectEv s now)
  with assms show ?thesis by (simp add: suspectNode_dead)
next
  case (DeadEv d now)
  with assms show ?thesis by (simp add: deadNode_dead)
next
  case (MergeEv remote)
  with assms show ?thesis by (simp add: mergeState_dead)
next
  case (TimerEv q ct now)
  with assms show ?thesis
    by (simp add: suspicionTimerFire_def suspectTimeout_def deadNode_dead)
next
  case (ResetEv rs)
  then show ?thesis by (simp add: wrapAround_fields)
qed

lemma run_dead:
  assumes "table_inv m" "p < length (heap m)" "State (heap m ! p) = StateDead"
    "Incarnation (heap m ! p) = 0"
    and "\<forall>e \<in> set es. \<not> revives (Name (heap m ! p)) e"
  shows "heap (run m es) ! p = heap m ! p"
  using assms
proof (induction es arbitrary: m)
  case Nil
  then show ?case by simp
next
  case (Cons e es)
  have same: "heap (step m e) ! p = heap m ! p"
    using Cons.prems by (intro step_dead) simp_all
  have "heap (run (step m e) es) ! p = heap (step m e) ! p"
    using Cons.prems same
    by (intro Cons.IH) (simp_all add: table_inv_step less_le_trans[OF _ step_length])
  with same show ?case by simp
qed

lemma suspectNode_stamp:
  "(State (heap (suspectNode m s now) ! p) = State (heap m ! p)
      \<and> StateChange (heap (suspectNode m s now) ! p) = StateChange (heap m ! p))
   \<or> StateChange (heap (suspectNode m s now) ! p) = now"
  by (simp add: sm_defs nth_update_if split: option.splits)

lemma deadNode_stamp:
  "(State (heap (deadNode m d now) ! p) = State (heap m ! p)
      \<and> StateChange (heap (deadNode m d now) ! p) = StateChange (heap m ! p))
   \<or> StateChange (heap (deadNode m d now) ! p) = now"
  by (simp add: sm_defs nth_update_if split: option.splits)

lemma aliveNode_stamp:
  assumes "p < length (heap m)"
  shows "(State (heap (aliveNode m a r now) ! p) = State (heap m ! p)
      \<and> StateChange (heap (aliveNode m a r now) ! p) = StateChange (heap m ! p))
   \<or> StateChange (heap (aliveNode m a r now) ! p) = now"
proof (cases "nodeMap m (alive_Node a) = Some p")
  case True
  then show ?thesis
    by (simp add: aliveNode_known emit_def nth_update_if)
next
  case False
  then show ?thesis using assms by (simp add: aliveNode_other)
qed

lemma mergeState_stamp:
  assumes "p < length (heap m)"
  shows "(State (heap (mergeState m remote) ! p) = State (heap m ! p)
      \<and> StateChange (heap (mergeState m remote) ! p) = StateChange (heap m ! p))
   \<or> StateChange (heap (mergeState m remote) ! p) \<in> readings (MergeEv remote)"
  using assms
proof (induction m remote rule: mergeState.induct)
  case (1 m)
  then show ?case by simp
next
  case (2 m r rnd now remote)
  let ?a = "\<lparr>alive_Incarnation = push_Incarnation r, alive_Node = push_Name r,
             alive_Addr = push_Addr r, alive_Meta = push_Meta r\<rparr>"
  let ?s = "\<lparr>suspect_Incarnation = push_Incarnation r, suspect_Node = push_Name r\<rparr>"
  let ?d = "\<lparr>dead_Incarnation = push_Incarnation r, dead_Node = push_Name r\<rparr>"
  have len: "p < length (heap (aliveNode m ?a rnd now))"
    "p < length (heap (suspectNode m ?s now))" "p < length (heap (deadNode m ?d now))"
    using "2.prems" by (simp_all add: suspectNode_frame deadNode_frame less_le_trans[OF _ aliveNode_length])
  note a = aliveNode_stamp[OF "2.prems", of ?a rnd now]
  note s = suspectNode_stamp[of m ?s now p]
  note d = deadNode_stamp[of m ?d now p]
  show ?case
    using "2.IH"(1)[OF _ "2.prems"] "2.IH"(2)[OF _ _ len(1)] "2.IH"(3)[OF _ _ _ len(2)]
      "2.IH"(4)[OF _ _ _ _ len(3)] "2.IH"(5)[OF _ _ _ _ "2.prems"] a s d
    by (auto split: option.splits)
qed

lemma step_stamp:
  assumes "p < length (heap m)"
  shows "(State (heap (step m e) ! p) = State (heap m ! p)
      \<and> StateChange (heap (step m e) ! p) = StateChange (heap m ! p))
   \<or> StateChange (heap (step m e) ! p) \<in> readings e"
proof (cases e)
  case (AliveEv a r now)
  with aliveNode_stamp[OF assms, of a r now] show ?thesis by simp
next
  case (SuspectEv s now)
  with suspectNode_stamp[of m s now p] show ?thesis by simp
next
  case (DeadEv d now)
  with deadNode_stamp[of m d now p] show ?thesis by simp
next
  case (MergeEv remote)
  with mergeState_stamp[OF assms, of remote] show ?thesis by simp
next
  case (TimerEv q ct now)
  with deadNode_stamp[of m "timeoutMsg (heap m ! q)" now p] show ?thesis
    by (simp add: suspicionTimerFire_def suspectTimeout_def)
next
  case (ResetEv rs)
  then show ?thesis by (simp add: wrapAround_fields)
qed

lemma run_stamp:
  assumes "p < length (heap m)" "\<forall>e \<in> set es. ct \<notin> readings e"
    "StateChange (heap m ! p) \<noteq> ct"
  shows "StateChange (heap (run m es) ! p) \<noteq> ct"
  using assms
proof (induction es arbitrary: m)
  case Nil
  then show ?case by simp
next
  case (Cons e es)
  have "StateChange (heap (step m e) ! p) \<noteq> ct"
    using step_stamp[OF Cons.prems(1), of e] Cons.prems(2,3) by auto
  then show ?case
    using Cons.prems by (simp add: Cons.IH less_le_trans[OF _ step_length])
qed

lemma run_transition:
  assumes "p < length (heap m)" "\<forall>e \<in> set es. ct \<notin> readings e" "transitions p m es"
  shows "StateChange (heap (run m es) ! p) \<noteq> ct"
  using assms
proof (induction es arbitrary: m)
  case Nil
  then show ?case by simp
next
  case (Cons e es)
  have len: "p < length (heap (step m e))"
    using Cons.prems(1) by (rule less_le_trans[OF _ step_length])
  show ?case
  proof (cases "State (heap (step m e) ! p) = State (heap m ! p)")
    case True
    with Cons.prems have "transitions p (step m e) es" by simp
    with Cons.prems(2) len show ?thesis by (simp add: Cons.IH)
  next
    case False
    with step_stamp[OF Cons.prems(1), of e] Cons.prems(2)
    have "StateChange (heap (step m e) ! p) \<noteq> ct" by auto
    with Cons.prems(2) len show ?thesis by (simp add: run_stamp)
  qed
qed

text \<open>Outside the refutation blocks every write of \<open>Incarnation\<close> is guarded: the stored
  incarnation of a record that does not carry the local node's name never decreases.\<close>

lemma suspectNode_mono:
  "Name (heap m ! p) \<noteq> Config_Name (config m)
    \<Longrightarrow> Incarnation (heap m ! p) \<le> Incarnation (heap (suspectNode m s now) ! p)"
  by (auto simp add: sm_defs nth_update_if split: option.splits)

lemma deadNode_mono:
  "Name (heap m ! p) \<noteq> Config_Name (config m)
    \<Longrightarrow> Incarnation (heap m ! p) \<le> Incarnation (heap (deadNode m d now) ! p)"
  by (auto simp add: sm_defs nth_update_if split: option.splits)

lemma aliveNode_mono:
  assumes "p < length (heap m)"
  shows "Incarnation (heap m ! p) \<le> Incarnation (heap (aliveNode m a r now) ! p)"
proof (cases "nodeMap m (alive_Node a) = Some p")
  case True
  then show ?thesis
    by (auto simp add: aliveNode_known emit_def nth_update_if)
next
  case False
  then show ?thesis using assms by (simp add: aliveNode_other)
qed

lemma mergeState_mono:
  assumes "p < length (heap m)" "Name (heap m ! p) \<noteq> Config_Name (config m)"
  shows "Incarnation (heap m ! p) \<le> Incarnation (heap (mergeState m remote) ! p)
       \<and> Name (heap (mergeState m remote) ! p) = Name (heap m ! p)
       \<and> config (mergeState m remote) = config m"
  using assms
proof (induction m remote rule: mergeState.induct)
  case (1 m)
  then show ?case by simp
next
  case (2 m r rnd now remote)
  let ?a = "\<lparr>alive_Incarnation = push_Incarnation r, alive_Node = push_Name r,
             alive_Addr = push_Addr r, alive_Meta = push_Meta r\<rparr>"
  let ?s = "\<lparr>suspect_Incarnation = push_Incarnation r, suspect_Node = push_Name r\<rparr>"
  let ?d = "\<lparr>dead_Incarnation = push_Incarnation r, dead_Node = push_Name r\<rparr>"
  have a: "p < length (heap (aliveNode m ?a rnd now))"
    "Name (heap (aliveNode m ?a rnd now) ! p) \<noteq> Config_Name (config (aliveNode m ?a rnd now))"
    "Incarnation (heap m ! p) \<le> Incarnation (heap (aliveNode m ?a rnd now) ! p)"
    using "2.prems"
    by (simp_all add: aliveNode_Name aliveNode_config aliveNode_mono less_le_trans[OF _ aliveNode_length])
  have s: "p < length (heap (suspectNode m ?s now))"
    "Name (heap (suspectNode m ?s now) ! p) \<noteq> Config_Name (config (suspectNode m ?s now))"
    "Incarnation (heap m ! p) \<le> Incarnation (heap (suspectNode m ?s now) ! p)"
    using "2.prems" by (simp_all add: suspectNode_frame suspectNode_Name suspectNode_mono)
  have d: "p < length (heap (deadNode m ?d now))"
    "Name (heap (deadNode m ?d now) ! p) \<noteq> Config_Name (config (deadNode m ?d now))"
    "Incarnation (heap m ! p) \<le> Incarnation (heap (deadNode m ?d now) ! p)"
    using "2.prems" by (simp_all add: deadNode_frame deadNode_Name deadNode_mono)
  show ?case
    using "2.IH"(1)[OF _ "2.prems"] "2.IH"(2)[OF _ _ a(1,2)] "2.IH"(3)[OF _ _ _ s(1,2)]
      "2.IH"(4)[OF _ _ _ _ d(1,2)] "2.IH"(5)[OF _ _ _ _ "2.prems"] a(3) s(3) d(3)
    by (auto simp: aliveNode_Name aliveNode_config suspectNode_frame suspectNode_Name
        deadNode_frame deadNode_Name "2.prems"(1) intro: order_trans)
qed

lemma step_mono:
  assumes "p < length (heap m)" "Name (heap m ! p) \<noteq> Config_Name (config m)"
  shows "Incarnation (heap m ! p) \<le> Incarnation (heap (step m e) ! p)
       \<and> Name (heap (step m e) ! p) = Name (heap m ! p)
       \<and> config (step m e) = config m"
proof (cases e)
  case (AliveEv a r now)
  with assms show ?thesis by (simp add: aliveNode_mono aliveNode_Name aliveNode_config)
next
  case (SuspectEv s now)
  with assms show ?thesis by (simp add: suspectNode_mono suspectNode_Name suspectNode_frame)
next
  case (DeadEv d now)
  with assms show ?thesis by (simp add: deadNode_mono deadNode_Name deadNode_frame)
next
  case (MergeEv remote)
  with mergeState_mono[OF assms, of remote] show ?thesis by simp
next
  case (TimerEv q ct now)
  with assms show ?thesis
    by (simp add: suspicionTimerFire_def suspectTimeout_def deadNode_mono deadNode_Name
        deadNode_frame)
next
  case (ResetEv rs)
  then show ?thesis by (simp add: wrapAround_fields)
qed

lemma incarnation_monotone_others:
  assumes "p < length (heap m)" "Name (heap m ! p) \<noteq> Config_Name (config m)"
  shows "Incarnation (heap m ! p) \<le> Incarnation (heap (run m es) ! p)"
  using assms
proof (induction es arbitrary: m)
  case Nil
  then show ?case by simp
next
  case (Cons e es)
  note s = step_mono[OF Cons.prems, of e]
  have "Incarnation (heap (step m e) ! p) \<le> Incarnation (heap (run (step m e) es) ! p)"
    using Cons.prems s by (intro Cons.IH) (simp_all add: less_le_trans[OF _ step_length])
  with s show ?case by (auto intro: order_trans)
qed

text \<open>The refutation blocks take the new incarnation from the node's counter, whatever
  the record holds.\<close>

lemma refutation_counter:
  assumes inv: "table_inv m"
    and self: "nodeMap m (Config_Name (config m)) = Some p"
    and alive: "State (heap m ! p) = StateAlive"
  shows "(suspect_Node s = Config_Name (config m)
            \<and> Incarnation (heap m ! p) \<le> suspect_Incarnation s
          \<longrightarrow> (let m' = suspectNode m s now
               in trace m' = trace m @ [Broadcast (Config_Name (config m))
                     (aliveMsg \<lparr>alive_Incarnation = incarnation m + 1,
                        alive_Node = Config_Name (config m),
                        alive_Addr = Addr (heap m ! p), alive_Meta = Meta (heap m ! p)\<rparr>)]
                \<and> incarnation m' = incarnation m + 1
                \<and> Incarnation (heap m' ! p) = incarnation m + 1
                \<and> State (heap m' ! p) = StateAlive))
       \<and> (dead_Node d = Config_Name (config m)
            \<and> Incarnation (heap m ! p) \<le> dead_Incarnation d \<and> \<not> leave m
          \<longrightarrow> (let m' = deadNode m d now
               in trace m' = trace m @ [Broadcast (Config_Name (config m))
                     (aliveMsg \<lparr>alive_Incarnation = incarnation m + 1,
                        alive_Node = Config_Name (config m),
                        alive_Addr = Addr (heap m ! p), alive_Meta = Meta (heap m ! p)\<rparr>)]
                \<and> incarnation m' = incarnation m + 1
                \<and> Incarnation (heap m' ! p) = incarnation m + 1
                \<and> State (heap m' ! p) = StateAlive))"
proof -
  note p = table_inv_lookup[OF inv self]
  have 1: "suspectNode m s now = refute m p (Config_Name (config m))"
    if "suspect_Node s = Config_Name (config m)" "Incarnation (heap m ! p) \<le> suspect_Incarnation s"
    using that self alive p(3)
    by (simp add: suspectNode_def not_less[symmetric])
  have 2: "deadNode m d now = refute m p (Config_Name (config m))"
    if "dead_Node d = Config_Name (config m)" "Incarnation (heap m ! p) \<le> dead_Incarnation d"
      "\<not> leave m"
    using that self alive p(3)
    by (simp add: deadNode_def not_less[symmetric])
  show ?thesis
    using p(2,3) alive by (simp add: 1 2 refute_eq Let_def)
qed

section \<open>Probe, scheduler, push/pull and ack registry\<close>

lemma probeLoop_target:
  "probeLoop rs numCheck m = (m', Some p) \<Longrightarrow>
     probeIndex m' < length (nodes m') \<and> nodes m' ! probeIndex m' = p
     \<and> Name (heap m' ! p) \<noteq> Config_Name (config m') \<and> State (heap m' ! p) \<noteq> StateDead"
proof (induction rs numCheck m rule: probeLoop.induct)
  case (1 rs numCheck m)
  show ?case
  proof (cases "numCheck \<ge> length (nodes m)")
    case True
    with "1.prems" show ?thesis by (simp add: probeLoop.simps)
  next
    case nc: False
    show ?thesis
    proof (cases "probeIndex m \<ge> length (nodes m)")
      case True
      with nc "1.prems" "1.IH"(1) show ?thesis by (simp add: probeLoop.simps)
    next
      case False
      with nc "1.prems" "1.IH"(2)[OF nc False refl refl] show ?thesis
        by (simp add: probeLoop.simps[of rs numCheck m] Let_def split: if_splits)
    qed
  qed
qed

text \<open>A tick that hands a record to probeNode leaves the index on that record: the next
  tick, from the same table, hands over the same record.\<close>

lemma probe_repeats:
  assumes "probe m rs = (m', Some p)"
  shows "probe m' rs' = (m', Some p)"
proof -
  from assms have t: "probeIndex m' < length (nodes m')" "nodes m' ! probeIndex m' = p"
     "Name (heap m' ! p) \<noteq> Config_Name (config m')" "State (heap m' ! p) \<noteq> StateDead"
    using probeLoop_target[of rs 0 m m' p] by (simp_all add: probe_def)
  then show ?thesis
    by (auto simp add: probe_def probeLoop.simps[of rs' 0 m'] Let_def)
qed

lemma schedule_gossip_panics:
  "GossipNodes (config m) > 0 \<Longrightarrow> GossipInterval (config m) \<le> 0 \<Longrightarrow>
     schedule m = Inl (Panic ''non-positive interval for NewTicker'')"
  by (simp add: schedule_def startTicker_def NewTicker_def)

lemma pushPull_error:
  "net (Addr (heap m ! node)) = Inl err \<Longrightarrow> pushPull m (node # rest) net = m"
  by (simp add: pushPull_def pushPullNode_def)

lemmas ack_defs = setAckChannel_def setAckHandler_def invokeAckHandler_def ackLocked_def
  ackUnlocked_def timerStop_def ackTimerExpire_def ackTimerRun_def ackTimerFire_def
  runHandler_def emit_def invocations_def pending_def Let_def

lemma timerStop_fields:
  "trace (timerStop m t) = trace m" "ackHandlers (timerStop m t) = ackHandlers m"
  by (simp_all add: timerStop_def split: option.splits reapTimer.splits)

lemma ackUnlocked_count:
  "invocations seqNo (ackUnlocked m s found) =
     invocations seqNo m + (if s = seqNo \<and> found \<noteq> None then 1 else 0)"
  "ackHandlers (ackUnlocked m s found) = ackHandlers m"
  "pending seqNo (ackUnlocked m s found) = pending seqNo m"
  by (simp_all add: ackUnlocked_def runHandler_def emit_def invocations_def pending_def
      timerStop_fields split: option.splits handlerFn.splits)

lemma ackTimer_count:
  "invocations seqNo (ackTimerExpire m t) = invocations seqNo m"
  "invocations seqNo (ackTimerRun m t) = invocations seqNo m"
  "pending seqNo (ackTimerExpire m t) = pending seqNo m"
  "pending seqNo (ackTimerRun m t) \<le> pending seqNo m"
  by (simp_all add: ackTimerExpire_def ackTimerRun_def emit_def invocations_def pending_def Let_def
      split: option.splits reapTimer.splits)

lemma inflight_remove:
  assumes "i < length cs"
  shows "inflight seqNo (take i cs @ drop (Suc i) cs)
           + (if fst (cs ! i) = seqNo \<and> snd (cs ! i) \<noteq> None then 1 else 0)
         = inflight seqNo cs"
proof -
  have "inflight seqNo cs = inflight seqNo (take i cs @ cs ! i # drop (Suc i) cs)"
    using id_take_nth_drop[OF assms] by simp
  then show ?thesis by (simp add: inflight_def)
qed

lemma ackStep_count:
  "invocations seqNo (fst (ackStep (m, cs) ev)) + pending seqNo (fst (ackStep (m, cs) ev))
       + inflight seqNo (snd (ackStep (m, cs) ev))
     \<le> invocations seqNo m + pending seqNo m + inflight seqNo cs
       + (if registers seqNo ev then 1 else 0)"
proof (cases ev)
  case (SetAckChannel s ch timeout)
  then show ?thesis by (simp add: ack_defs split: option.splits)
next
  case (SetAckHandler s fn timeout)
  then show ?thesis by (simp add: ack_defs split: option.splits)
next
  case (InvokeAckHandler s)
  then show ?thesis
    by (simp add: invokeAckHandler_def ackLocked_def ackUnlocked_count)
       (simp add: invocations_def pending_def split: option.splits)
next
  case (AckLocked s)
  then show ?thesis
    by (simp add: ackLocked_def inflight_def invocations_def pending_def split: option.splits)
next
  case (AckUnlocked i)
  show ?thesis
  proof (cases "i < length cs")
    case True
    with AckUnlocked inflight_remove[OF True, of seqNo] show ?thesis
      by (simp add: ackUnlocked_count pending_def split: if_splits)
  next
    case False
    with AckUnlocked show ?thesis by simp
  qed
next
  case (TimerExpire t)
  then show ?thesis by (simp add: ackTimer_count)
next
  case (TimerRun t)
  with ackTimer_count(4)[of seqNo m t] show ?thesis by (simp add: ackTimer_count)
qed

lemma ackRun_count:
  "invocations seqNo (fst (ackRun c evs)) + pending seqNo (fst (ackRun c evs))
       + inflight seqNo (snd (ackRun c evs))
     \<le> invocations seqNo (fst c) + pending seqNo (fst c) + inflight seqNo (snd c)
       + registrations seqNo evs"
proof (induction evs arbitrary: c)
  case Nil
  then show ?case by (simp add: registrations_def)
next
  case (Cons ev evs)
  obtain m cs where c: "c = (m, cs)" by (cases c)
  from Cons.IH[of "ackStep c ev"] ackStep_count[of seqNo m cs ev] show ?case
    by (auto simp add: registrations_def c)
qed

section \<open>Evaluation of the example states\<close>

lemmas ex_defs = ex_config_def ex_alive_def init_def

lemmas op_defs = aliveNode_def suspectNode_def deadNode_def refute_def insertNode_def
  newNodeState_def randomOffset_def nextIncarnation_def encodeAndBroadcast_def emit_def

lemma ex_self_eq:
  "ex_self = \<lparr>config = ex_config, leave = False, incarnation = 5, sequenceNum = 0,
      heap = [\<lparr>Name = ''self'', Addr = [10, 0, 0, 1], Meta = [], Incarnation = 5,
               State = StateAlive, StateChange = 1\<rparr>],
      nodes = [0], nodeMap = [''self'' \<mapsto> 0], probeIndex = 0,
      ackHandlers = Map.empty, ackTimers = Map.empty, nextTimer = 0, tickers = [],
      trace = [Broadcast ''self'' (aliveMsg (ex_alive ''self'' 5)), JoinNotify 0]\<rparr>"
  by (simp add: ex_self_def ex_defs op_defs Let_def)

lemma ex_left_eq:
  "ex_left = \<lparr>config = ex_config, leave = True, incarnation = 5, sequenceNum = 0,
      heap = [\<lparr>Name = ''self'', Addr = [10, 0, 0, 1], Meta = [], Incarnation = 5,
               State = StateDead, StateChange = 2\<rparr>],
      nodes = [0], nodeMap = [''self'' \<mapsto> 0], probeIndex = 0,
      ackHandlers = Map.empty, ackTimers = Map.empty, nextTimer = 0, tickers = [],
      trace = [Broadcast ''self'' (aliveMsg (ex_alive ''self'' 5)), JoinNotify 0,
               Broadcast ''self'' (deadMsg \<lparr>dead_Incarnation = 5, dead_Node = ''self''\<rparr>),
               LeaveNotify 0]\<rparr>"
  by (simp add: ex_left_def ex_self_eq op_defs Let_def ex_config_def)

lemma table_inv_ex_self: "table_inv ex_self"
  by (simp add: ex_self_eq table_inv_alt)

lemma table_inv_ex_table: "table_inv ex_table"
  by (auto simp add: table_inv_alt ex_table_def init_def ex_config_def)

lemma ex_peer_eq:
  "ex_peer = \<lparr>config = ex_config, leave = False, incarnation = 5, sequenceNum = 0,
      heap = [\<lparr>Name = ''self'', Addr = [10, 0, 0, 1], Meta = [], Incarnation = 5,
               State = StateAlive, StateChange = 1\<rparr>,
              \<lparr>Name = ''b'', Addr = [10, 0, 0, 1], Meta = [], Incarnation = 7,
               State = StateAlive, StateChange = 2\<rparr>],
      nodes = [1, 0], nodeMap = [''self'' \<mapsto> 0, ''b'' \<mapsto> 1], probeIndex = 0,
      ackHandlers = Map.empty, ackTimers = Map.empty, nextTimer = 0, tickers = [],
      trace = [Broadcast ''self'' (aliveMsg (ex_alive ''self'' 5)), JoinNotify 0,
               Broadcast ''b'' (aliveMsg (ex_alive ''b'' 7)), JoinNotify 1]\<rparr>"
  by (simp add: ex_peer_def ex_self_eq op_defs Let_def ex_config_def ex_alive_def)

lemma ex_suspect_eq:
  "ex_suspect = \<lparr>config = ex_config, leave = False, incarnation = 5, sequenceNum = 0,
      heap = [\<lparr>Name = ''self'', Addr = [10, 0, 0, 1], Meta = [], Incarnation = 5,
               State = StateAlive, StateChange = 1\<rparr>,
              \<lparr>Name = ''b'', Addr = [10, 0, 0, 1], Meta = [], Incarnation = 7,
               State = StateSuspect, StateChange = 3\<rparr>],
      nodes = [1, 0], nodeMap = [''self'' \<mapsto> 0, ''b'' \<mapsto> 1], probeIndex = 0,
      ackHandlers = Map.empty, ackTimers = Map.empty, nextTimer = 0, tickers = [],
      trace = [Broadcast ''self'' (aliveMsg (ex_alive ''self'' 5)), JoinNotify 0,
               Broadcast ''b'' (aliveMsg (ex_alive ''b'' 7)), JoinNotify 1,
               Broadcast ''b'' (suspectMsg \<lparr>suspect_Incarnation = 7, suspect_Node = ''b''\<rparr>),
               SuspicionTimer 1 3]\<rparr>"
  by (simp add: ex_suspect_def ex_self_eq op_defs Let_def ex_config_def ex_alive_def)

lemma ex_suspect_peer:
  "ex_suspect = suspectNode ex_peer \<lparr>suspect_Incarnation = 7, suspect_Node = ''b''\<rparr> 3"
  by (simp add: ex_suspect_def ex_peer_def)

lemma table_inv_ex_suspect: "table_inv ex_suspect"
  by (auto simp add: ex_suspect_eq table_inv_alt ex_config_def)

lemma ex_epochs_run:
  "heap (step ex_suspect (AliveEv (ex_alive ''b'' 8) 0 4)) ! 1 =
     \<lparr>Name = ''b'', Addr = [10, 0, 0, 1], Meta = [], Incarnation = 8,
               State = StateAlive, StateChange = 4\<rparr>"
  "heap (run ex_suspect ex_epochs) ! 1 =
     \<lparr>Name = ''b'', Addr = [10, 0, 0, 1], Meta = [], Incarnation = 8,
               State = StateSuspect, StateChange = 5\<rparr>"
  by (simp_all add: ex_epochs_def ex_suspect_eq op_defs Let_def ex_config_def ex_alive_def)

section \<open>Claims\<close>

text \<open>
  C1 (refutation), as amended. When a Suspect event names the local node and carries an
  incarnation not below the one of the local record, while the local record is Alive and its
  incarnation equals the node's incarnation counter (and likewise for a Dead event when leave
  has not been initiated), the state machine broadcasts an Alive message with the record's
  previous incarnation plus one (wrapping at \<open>2^32\<close>) and the record's address and meta
  data, stores that value in the counter and in the local record, and leaves the record
  Alive.
\<close>

theorem C1_refutation:
  assumes inv: "table_inv m"
    and self: "nodeMap m (Config_Name (config m)) = Some p"
    and alive: "State (heap m ! p) = StateAlive"
    and sync: "incarnation m = Incarnation (heap m ! p)"
  shows "(suspect_Node s = Config_Name (config m)
            \<and> Incarnation (heap m ! p) \<le> suspect_Incarnation s
          \<longrightarrow> (let m' = suspectNode m s now
               in trace m' = trace m @ [Broadcast (Config_Name (config m))
                     (aliveMsg \<lparr>alive_Incarnation = Incarnation (heap m ! p) + 1,
                        alive_Node = Config_Name (config m),
                        alive_Addr = Addr (heap m ! p), alive_Meta = Meta (heap m ! p)\<rparr>)]
                \<and> incarnation m' = Incarnation (heap m ! p) + 1
                \<and> Incarnation (heap m' ! p) = Incarnation (heap m ! p) + 1
                \<and> State (heap m' ! p) = StateAlive))
       \<and> (dead_Node d = Config_Name (config m)
            \<and> Incarnation (heap m ! p) \<le> dead_Incarnation d \<and> \<not> leave m
          \<longrightarrow> (let m' = deadNode m d now
               in trace m' = trace m @ [Broadcast (Config_Name (config m))
                     (aliveMsg \<lparr>alive_Incarnation = Incarnation (heap m ! p) + 1,
                        alive_Node = Config_Name (config m),
                        alive_Addr = Addr (heap m ! p), alive_Meta = Meta (heap m ! p)\<rparr>)]
                \<and> incarnation m' = Incarnation (heap m ! p) + 1
                \<and> Incarnation (heap m' ! p) = Incarnation (heap m ! p) + 1
                \<and> State (heap m' ! p) = StateAlive))"
  using refutation_counter[OF inv self alive, of s now d] sync by simp

theorem C1_refutation_witness:
  "table_inv ex_self
   \<and> nodeMap ex_self (Config_Name (config ex_self)) = Some 0
   \<and> State (heap ex_self ! 0) = StateAlive
   \<and> incarnation ex_self = Incarnation (heap ex_self ! 0)
   \<and> Incarnation (heap ex_self ! 0) = 5
   \<and> Incarnation (heap (suspectNode ex_self \<lparr>suspect_Incarnation = 5, suspect_Node = ''self''\<rparr> 2) ! 0) = 6
   \<and> Incarnation (heap (deadNode ex_self \<lparr>dead_Incarnation = 5, dead_Node = ''self''\<rparr> 2) ! 0) = 6
   \<and> State (heap (suspectNode ex_self \<lparr>suspect_Incarnation = 5, suspect_Node = ''self''\<rparr> 2) ! 0) = StateAlive
   \<and> State (heap (deadNode ex_self \<lparr>dead_Incarnation = 5, dead_Node = ''self''\<rparr> 2) ! 0) = StateAlive"
proof -
  have h: "table_inv ex_self" "nodeMap ex_self (Config_Name (config ex_self)) = Some 0"
    "State (heap ex_self ! 0) = StateAlive" "incarnation ex_self = Incarnation (heap ex_self ! 0)"
    by (simp_all add: table_inv_ex_self) (simp_all add: ex_self_eq ex_config_def)
  have c: "Config_Name (config ex_self) = ''self''" "Incarnation (heap ex_self ! 0) = 5"
    "\<not> leave ex_self"
    by (simp_all add: ex_self_eq ex_config_def)
  show ?thesis
    using C1_refutation[OF h, where s = "\<lparr>suspect_Incarnation = 5, suspect_Node = ''self''\<rparr>"
        and d = "\<lparr>dead_Incarnation = 5, dead_Node = ''self''\<rparr>" and now = 2] h c
    by (simp add: Let_def)
qed

text \<open>
  C1 as stated fails when the local record is not Alive: after a voluntary leave the
  local record is Dead, and a Suspect event about the local node with the record's
  incarnation is ignored, nothing is broadcast and no incarnation changes.
\<close>

theorem C1_counterexample:
  "nodeMap ex_left (Config_Name (config ex_left)) = Some 0
   \<and> State (heap ex_left ! 0) = StateDead
   \<and> Incarnation (heap ex_left ! 0) \<le> 5
   \<and> suspectNode ex_left \<lparr>suspect_Incarnation = 5, suspect_Node = Config_Name (config ex_left)\<rparr> 3
        = ex_left"
  by (simp add: ex_left_eq op_defs ex_config_def)

text \<open>
  C2 (incarnation monotonicity) fails on the refutation path. A restarted node holds its
  own record with incarnation 1, equal to its counter; an Alive about itself with
  incarnation 10 raises the record to 10 and leaves the counter at 1; the Suspect with
  incarnation 10 that follows is refuted with \<open>nextIncarnation() = 2\<close>, which is written into
  the record: the stored incarnation of the node's own name drops from 10 to 2.
\<close>

theorem C2_refutation_lowers_incarnation:
  "Name (heap ex_started ! 0) = Config_Name (config ex_started)
   \<and> Incarnation (heap ex_started ! 0) = 1
   \<and> Incarnation (heap (run ex_started (take 1 ex_rejoin)) ! 0) = 10
   \<and> Incarnation (heap (run ex_started ex_rejoin) ! 0) = 2"
  by (simp add: ex_started_def ex_rejoin_def ex_config_def ex_alive_def init_def op_defs Let_def
      word_le_nat_alt)

text \<open>
  C3 (tie-break at equal incarnation). For a record of the table found under its name: a
  Suspect event with the stored incarnation leaves the whole state unchanged when the record
  is Suspect or Dead; a Dead event with the stored incarnation turns a Suspect record Dead
  (stamping the change, broadcasting the Dead message and notifying the leave channel); an
  Alive event with the stored incarnation, or a lower one, leaves the whole state unchanged,
  and one with a strictly greater incarnation makes the record Alive with that incarnation.
\<close>

theorem C3_tie_break:
  assumes inv: "table_inv m" and known: "nodeMap m n = Some p"
  shows "(State (heap m ! p) = StateSuspect \<or> State (heap m ! p) = StateDead
            \<longrightarrow> suspectNode m \<lparr>suspect_Incarnation = Incarnation (heap m ! p),
                                 suspect_Node = n\<rparr> now = m)
       \<and> (State (heap m ! p) = StateSuspect
            \<longrightarrow> (let d = \<lparr>dead_Incarnation = Incarnation (heap m ! p), dead_Node = n\<rparr>;
                     m' = deadNode m d now
                 in heap m' = (heap m)[p := (heap m ! p)\<lparr>State := StateDead, StateChange := now\<rparr>]
                  \<and> State (heap m' ! p) = StateDead
                  \<and> trace m' = trace m @ [Broadcast n (deadMsg d), LeaveNotify p]))
       \<and> (alive_Node a = n \<and> alive_Incarnation a \<le> Incarnation (heap m ! p)
            \<longrightarrow> aliveNode m a r now = m)
       \<and> (alive_Node a = n \<and> Incarnation (heap m ! p) < alive_Incarnation a
            \<longrightarrow> State (heap (aliveNode m a r now) ! p) = StateAlive
              \<and> Incarnation (heap (aliveNode m a r now) ! p) = alive_Incarnation a)"
proof -
  note p = table_inv_lookup[OF inv known]
  have notself: "Name (heap m ! p) \<noteq> Config_Name (config m)"
    if "State (heap m ! p) = StateSuspect"
    using inv p(1) that by (auto simp: table_inv_alt)
  have 1: "suspectNode m \<lparr>suspect_Incarnation = Incarnation (heap m ! p), suspect_Node = n\<rparr> now = m"
    if "State (heap m ! p) = StateSuspect \<or> State (heap m ! p) = StateDead"
    using that known by (auto simp: suspectNode_def Let_def)
  have 2: "deadNode m \<lparr>dead_Incarnation = Incarnation (heap m ! p), dead_Node = n\<rparr> now =
      m\<lparr>trace := trace m @ [Broadcast n (deadMsg \<lparr>dead_Incarnation = Incarnation (heap m ! p),
                                                    dead_Node = n\<rparr>), LeaveNotify p],
        heap := (heap m)[p := (heap m ! p)\<lparr>State := StateDead, StateChange := now\<rparr>]\<rparr>"
    if "State (heap m ! p) = StateSuspect"
    using that known notself[OF that]
    by (simp add: deadNode_def Let_def encodeAndBroadcast_def emit_def)
  have 3: "aliveNode m a r now = m"
    if "alive_Node a = n" "alive_Incarnation a \<le> Incarnation (heap m ! p)"
    using known that by (simp add: aliveNode_known)
  have 4: "State (heap (aliveNode m a r now) ! p) = StateAlive
      \<and> Incarnation (heap (aliveNode m a r now) ! p) = alive_Incarnation a"
    if "alive_Node a = n" "Incarnation (heap m ! p) < alive_Incarnation a"
    using known that p(2) by (simp add: aliveNode_known emit_def not_le[symmetric])
  show ?thesis
    using 1 3 4 p(2) by (simp add: 2 Let_def)
qed

theorem C3_tie_break_witness:
  "table_inv ex_suspect \<and> nodeMap ex_suspect ''b'' = Some 1
   \<and> State (heap ex_suspect ! 1) = StateSuspect \<and> Incarnation (heap ex_suspect ! 1) = 7
   \<and> suspectNode ex_suspect \<lparr>suspect_Incarnation = 7, suspect_Node = ''b''\<rparr> 9 = ex_suspect
   \<and> State (heap (deadNode ex_suspect \<lparr>dead_Incarnation = 7, dead_Node = ''b''\<rparr> 9) ! 1) = StateDead
   \<and> aliveNode ex_suspect (ex_alive ''b'' 7) 0 9 = ex_suspect
   \<and> State (heap (aliveNode ex_suspect (ex_alive ''b'' 8) 0 9) ! 1) = StateAlive"
proof -
  have h: "table_inv ex_suspect" "nodeMap ex_suspect ''b'' = Some 1"
    by (simp_all add: table_inv_ex_suspect) (simp add: ex_suspect_eq)
  have e: "State (heap ex_suspect ! 1) = StateSuspect" "Incarnation (heap ex_suspect ! 1) = 7"
    by (simp_all add: ex_suspect_eq)
  have a: "alive_Node (ex_alive ''b'' 7) = ''b'' \<and> alive_Incarnation (ex_alive ''b'' 7) \<le> 7"
    "alive_Node (ex_alive ''b'' 8) = ''b'' \<and> 7 < alive_Incarnation (ex_alive ''b'' 8)"
    by (simp_all add: ex_alive_def)
  note T7 = C3_tie_break[OF h, of 9 "ex_alive ''b'' 7" 0, unfolded Let_def e]
  note T8 = C3_tie_break[OF h, of 9 "ex_alive ''b'' 8" 0, unfolded Let_def e]
  from T7 e(1) a(1) have "suspectNode ex_suspect \<lparr>suspect_Incarnation = 7, suspect_Node = ''b''\<rparr> 9 = ex_suspect"
    "State (heap (deadNode ex_suspect \<lparr>dead_Incarnation = 7, dead_Node = ''b''\<rparr> 9) ! 1) = StateDead"
    "aliveNode ex_suspect (ex_alive ''b'' 7) 0 9 = ex_suspect"
    by blast+
  moreover from T8 a(2) have "State (heap (aliveNode ex_suspect (ex_alive ''b'' 8) 0 9) ! 1) = StateAlive"
    by blast
  ultimately show ?thesis using h e by simp
qed

text \<open>
  C4 (suspicion timer), as amended. When \<open>suspectNode\<close> makes a record Suspect it stamps it with the
  clock reading and arms a timer on that record and that reading. The fired timer feeds
  \<open>Dead{Incarnation: state.Incarnation, Node: state.Name}\<close> to \<open>deadNode\<close> exactly when the
  record is still Suspect with the captured \<open>StateChange\<close>, and does nothing otherwise. If,
  between arming and firing, events whose clock readings differ from the captured one changed
  the State of the record at least once, the fired timer does nothing.
\<close>

theorem C4_suspicion_timer:
  "(nodeMap m (suspect_Node s) = Some p \<and> p < length (heap m)
      \<and> State (heap m ! p) = StateAlive \<and> Incarnation (heap m ! p) \<le> suspect_Incarnation s
      \<and> Name (heap m ! p) \<noteq> Config_Name (config m)
    \<longrightarrow> (let m' = suspectNode m s now
         in State (heap m' ! p) = StateSuspect \<and> StateChange (heap m' ! p) = now
          \<and> trace m' = trace m @ [Broadcast (suspect_Node s) (suspectMsg s), SuspicionTimer p now]))
   \<and> suspicionTimerFire m p ct now' =
       (if State (heap m ! p) = StateSuspect \<and> StateChange (heap m ! p) = ct
        then deadNode m \<lparr>dead_Incarnation = Incarnation (heap m ! p),
                         dead_Node = Name (heap m ! p)\<rparr> now'
        else m)
   \<and> (p < length (heap m) \<and> (\<forall>e \<in> set es. ct \<notin> readings e) \<and> transitions p m es
    \<longrightarrow> suspicionTimerFire (run m es) p ct now' = run m es)"
proof -
  have 1: "State (heap (suspectNode m s now) ! p) = StateSuspect
      \<and> StateChange (heap (suspectNode m s now) ! p) = now
      \<and> trace (suspectNode m s now)
          = trace m @ [Broadcast (suspect_Node s) (suspectMsg s), SuspicionTimer p now]"
    if "nodeMap m (suspect_Node s) = Some p" "p < length (heap m)"
      "State (heap m ! p) = StateAlive" "Incarnation (heap m ! p) \<le> suspect_Incarnation s"
      "Name (heap m ! p) \<noteq> Config_Name (config m)"
    using that by (simp add: suspectNode_def Let_def encodeAndBroadcast_def emit_def
        not_less[symmetric])
  have 2: "suspicionTimerFire m p ct now' =
       (if State (heap m ! p) = StateSuspect \<and> StateChange (heap m ! p) = ct
        then deadNode m \<lparr>dead_Incarnation = Incarnation (heap m ! p),
                         dead_Node = Name (heap m ! p)\<rparr> now'
        else m)"
    by (simp add: suspicionTimerFire_def suspectTimeout_def timeoutMsg_def)
  have 3: "suspicionTimerFire (run m es) p ct now' = run m es"
    if "p < length (heap m)" "\<forall>e \<in> set es. ct \<notin> readings e" "transitions p m es"
    using run_transition[OF that] by (simp add: suspicionTimerFire_def)
  from 1 2 3 show ?thesis
    unfolding Let_def by blast
qed

theorem C4_suspicion_timer_witness:
  "State (heap ex_suspect ! 1) = StateSuspect \<and> StateChange (heap ex_suspect ! 1) = 3
   \<and> trace ex_suspect = trace ex_peer @
        [Broadcast ''b'' (suspectMsg \<lparr>suspect_Incarnation = 7, suspect_Node = ''b''\<rparr>),
         SuspicionTimer 1 3]
   \<and> suspicionTimerFire ex_suspect 1 3 9 =
        deadNode ex_suspect \<lparr>dead_Incarnation = 7, dead_Node = ''b''\<rparr> 9
   \<and> transitions 1 ex_suspect ex_epochs
   \<and> State (heap (run ex_suspect ex_epochs) ! 1) = StateSuspect
   \<and> suspicionTimerFire (run ex_suspect ex_epochs) 1 3 9 = run ex_suspect ex_epochs"
proof -
  let ?s = "\<lparr>suspect_Incarnation = 7, suspect_Node = ''b''\<rparr>"
  have a: "nodeMap ex_peer (suspect_Node ?s) = Some 1 \<and> 1 < length (heap ex_peer)
      \<and> State (heap ex_peer ! 1) = StateAlive
      \<and> Incarnation (heap ex_peer ! 1) \<le> suspect_Incarnation ?s
      \<and> Name (heap ex_peer ! 1) \<noteq> Config_Name (config ex_peer)"
    by (simp add: ex_peer_eq ex_config_def)
  have b: "1 < length (heap ex_suspect) \<and> (\<forall>e \<in> set ex_epochs. 3 \<notin> readings e)
      \<and> transitions 1 ex_suspect ex_epochs"
    by (simp add: ex_epochs_def ex_suspect_eq op_defs Let_def ex_config_def ex_alive_def)
  have e: "State (heap ex_suspect ! 1) = StateSuspect" "StateChange (heap ex_suspect ! 1) = 3"
    "Incarnation (heap ex_suspect ! 1) = 7" "Name (heap ex_suspect ! 1) = ''b''"
    by (simp_all add: ex_suspect_eq)
  from C4_suspicion_timer[of ex_peer ?s 1 3 3 9 "[]", unfolded Let_def] a
  have 1: "State (heap ex_suspect ! 1) = StateSuspect \<and> StateChange (heap ex_suspect ! 1) = 3
   \<and> trace ex_suspect = trace ex_peer @ [Broadcast (suspect_Node ?s) (suspectMsg ?s),
         SuspicionTimer 1 3]"
    unfolding ex_suspect_peer by blast
  from C4_suspicion_timer[of ex_suspect ?s 1 3 3 9 ex_epochs] b
  have 2: "suspicionTimerFire ex_suspect 1 3 9 =
       (if State (heap ex_suspect ! 1) = StateSuspect \<and> StateChange (heap ex_suspect ! 1) = 3
        then deadNode ex_suspect \<lparr>dead_Incarnation = Incarnation (heap ex_suspect ! 1),
                         dead_Node = Name (heap ex_suspect ! 1)\<rparr> 9
        else ex_suspect)"
    and 3: "suspicionTimerFire (run ex_suspect ex_epochs) 1 3 9 = run ex_suspect ex_epochs"
    by blast+
  from 1 2 3 b e ex_epochs_run(2) show ?thesis
    by simp
qed

text \<open>
  C4 as stated fails when a clock reading repeats: the record is suspected at reading 3,
  refuted with incarnation 8, and suspected again at a reading that is 3 once more. The
  record has made two transitions, and the timer of the first suspicion still finds it
  Suspect with the captured \<open>StateChange\<close> and turns it Dead.
\<close>

theorem C4_counterexample:
  "SuspicionTimer 1 3 \<in> set (trace ex_suspect)
   \<and> State (heap ex_suspect ! 1) = StateSuspect
   \<and> StateChange (heap ex_suspect ! 1) = 3
   \<and> transitions 1 ex_suspect ex_clash
   \<and> State (heap (run ex_suspect ex_clash) ! 1) = StateSuspect
   \<and> Incarnation (heap (run ex_suspect ex_clash) ! 1) = 8
   \<and> State (heap (suspicionTimerFire (run ex_suspect ex_clash) 1 3 9) ! 1) = StateDead"
  by (simp add: ex_clash_def ex_suspect_eq op_defs Let_def ex_config_def ex_alive_def
      suspicionTimerFire_def suspectTimeout_def timeoutMsg_def word_le_nat_alt
      word_less_nat_alt)

text \<open>
  C5 (reset sweep). On a node table that satisfies I1, the wrap-around handling of \<open>probe\<close>
  leaves in the sequence exactly the records that were not Dead (each once), does not touch
  the records themselves, removes the name of every Dead record of the sequence from the
  mapping, leaves a table that satisfies I1 again (mapping and sequence have the same names,
  each name mapped to its record), and sets \<open>probeIndex\<close> to 0.
\<close>

theorem C5_reset:
  assumes inv: "I1 m"
  shows "let m' = wrapAround m rs
         in mset (nodes m') = mset (filter (\<lambda>p. State (heap m ! p) \<noteq> StateDead) (nodes m))
          \<and> heap m' = heap m
          \<and> (\<forall>p \<in> set (nodes m). State (heap m ! p) = StateDead
                \<longrightarrow> nodeMap m' (Name (heap m ! p)) = None)
          \<and> dom (nodeMap m') = (\<lambda>p. Name (heap m' ! p)) ` set (nodes m')
          \<and> I1 m'
          \<and> probeIndex m' = 0"
proof -
  have inv': "I1 (wrapAround m rs)" by (rule I1_wrapAround[OF inv])
  then have names: "dom (nodeMap (wrapAround m rs))
      = (\<lambda>p. Name (heap (wrapAround m rs) ! p)) ` set (nodes (wrapAround m rs))"
    by (simp add: I1_def)
  have dead: "nodeMap (wrapAround m rs) (Name (heap m ! p)) = None"
    if "p \<in> set (nodes m)" "State (heap m ! p) = StateDead" for p
    using that by (auto simp: wrapAround_fields resetNodes_fields)
  show ?thesis
    unfolding Let_def using inv' dead names
    by (simp add: wrapAround_fields(1,2,6) resetNodes_mset)
qed

theorem C5_reset_witness:
  "I1 ex_table
   \<and> mset (nodes (wrapAround ex_table [3, 5, 4])) = {#0, 2, 4#}
   \<and> nodeMap (wrapAround ex_table [3, 5, 4]) ''x'' = None
   \<and> nodeMap (wrapAround ex_table [3, 5, 4]) ''y'' = None
   \<and> dom (nodeMap (wrapAround ex_table [3, 5, 4])) = {''a'', ''b'', ''c''}
   \<and> probeIndex (wrapAround ex_table [3, 5, 4]) = 0"
proof -
  let ?m' = "wrapAround ex_table [3, 5, 4]"
  have h: "I1 ex_table" by (rule table_inv_I1[OF table_inv_ex_table])
  have e: "heap ex_table =
       [\<lparr>Name = ''a'', Addr = [10, 0, 0, 2], Meta = [], Incarnation = 1, State = StateAlive, StateChange = 1\<rparr>,
        \<lparr>Name = ''x'', Addr = [10, 0, 0, 3], Meta = [], Incarnation = 1, State = StateDead, StateChange = 5\<rparr>,
        \<lparr>Name = ''b'', Addr = [10, 0, 0, 4], Meta = [], Incarnation = 7, State = StateAlive, StateChange = 2\<rparr>,
        \<lparr>Name = ''y'', Addr = [10, 0, 0, 5], Meta = [], Incarnation = 2, State = StateDead, StateChange = 6\<rparr>,
        \<lparr>Name = ''c'', Addr = [10, 0, 0, 6], Meta = [], Incarnation = 3, State = StateSuspect, StateChange = 7\<rparr>]"
     "nodes ex_table = [0, 1, 2, 3, 4]"
    by (simp_all add: ex_table_def init_def)
  from C5_reset[OF h, of "[3, 5, 4]"]
  have c: "mset (nodes ?m') =
            mset (filter (\<lambda>p. State (heap ex_table ! p) \<noteq> StateDead) (nodes ex_table))"
      "heap ?m' = heap ex_table"
      "\<forall>p \<in> set (nodes ex_table). State (heap ex_table ! p) = StateDead
          \<longrightarrow> nodeMap ?m' (Name (heap ex_table ! p)) = None"
      "dom (nodeMap ?m') = (\<lambda>p. Name (heap ?m' ! p)) ` set (nodes ?m')"
      "probeIndex ?m' = 0"
    by (simp_all add: Let_def)
  have 1: "mset (nodes ?m') = {#0, 2, 4#}"
    using c(1) by (simp add: e)
  then have "set (nodes ?m') = {0, 2, 4}"
    using mset_eq_setD[of "nodes ?m'" "[0, 2, 4]"] by simp
  with c(4) have 2: "dom (nodeMap ?m') = {''a'', ''b'', ''c''}"
    by (simp add: c(2) e)
  from c(3) have 3: "nodeMap ?m' ''x'' = None" "nodeMap ?m' ''y'' = None"
    by (simp_all add: e)
  from h 1 2 3 c(5) show ?thesis by simp
qed

text \<open>
  C6 (round-robin probe) fails where the tick finds a record to probe: the loop advances
  \<open>probeIndex\<close> only past the records it skips and calls \<open>probeNode\<close> without advancing
  past the record it probes. With two Alive peers and the index at the first, the tick
  probes the first and leaves the index there; the next tick probes the first again.
\<close>

theorem C6_probe_index_not_advanced:
  "nodes ex_peers ! probeIndex ex_peers = 0
   \<and> probe ex_peers [] = (ex_peers, Some 0)
   \<and> probeIndex (fst (probe ex_peers [])) = probeIndex ex_peers
   \<and> probe (fst (probe ex_peers [])) [] = (ex_peers, Some 0)"
proof -
  have "probe ex_peers [] = (ex_peers, Some 0)"
    by (simp add: probe_def probeLoop.simps[of "[]" 0 ex_peers] Let_def)
       (simp add: ex_peers_def init_def ex_config_def)
  moreover have "nodes ex_peers ! probeIndex ex_peers = 0"
    by (simp add: ex_peers_def init_def)
  ultimately show ?thesis by simp
qed

text \<open>
  C7 (scheduler), as amended. Provided the gossip period is positive whenever
  \<open>GossipNodes\<close> is positive, \<open>schedule\<close> arms the probe ticker exactly when
  \<open>ProbeInterval > 0\<close>, the push/pull ticker exactly when \<open>PushPullInterval > 0\<close>, and the
  gossip ticker, with period \<open>GossipInterval\<close>, exactly when \<open>GossipNodes > 0\<close>.
\<close>

theorem C7_schedule:
  assumes "GossipNodes (config m) > 0 \<longrightarrow> GossipInterval (config m) > 0"
  shows "schedule m = Inr (m\<lparr>tickers := tickers m
           @ (if ProbeInterval (config m) > 0 then [(ProbeTick, ProbeInterval (config m))] else [])
           @ (if PushPullInterval (config m) > 0
              then [(PushPullTick, PushPullInterval (config m))] else [])
           @ (if GossipNodes (config m) > 0 then [(GossipTick, GossipInterval (config m))] else [])\<rparr>)"
  using assms by (auto simp add: schedule_def startTicker_def NewTicker_def)

theorem C7_schedule_witness:
  "(GossipNodes (config (init ex_config)) > 0 \<and> GossipInterval (config (init ex_config)) > 0)
   \<and> schedule (init ex_config) =
       Inr ((init ex_config)\<lparr>tickers := [(ProbeTick, 1000), (PushPullTick, 30000), (GossipTick, 200)]\<rparr>)"
proof -
  have h: "GossipNodes (config (init ex_config)) > 0 \<longrightarrow> GossipInterval (config (init ex_config)) > 0"
    by (simp add: init_def ex_config_def)
  from C7_schedule[OF h] show ?thesis
    by (simp add: init_def ex_config_def)
qed

text \<open>
  C7 as stated fails: with a non-zero \<open>GossipInterval\<close> and \<open>GossipNodes = 0\<close> the gossip
  ticker is not armed, while probe and push/pull are.
\<close>

theorem C7_counterexample:
  "GossipInterval (config ex_nogossip) = 200 \<and> \<not> armed (schedule ex_nogossip) GossipTick
   \<and> armed (schedule ex_nogossip) ProbeTick \<and> armed (schedule ex_nogossip) PushPullTick"
  by (simp add: ex_nogossip_def init_def ex_config_def schedule_def startTicker_def NewTicker_def
      armed_def)

text \<open>
  C8 (ack uniqueness), as amended. Along every interleaving of registrations, acks (whole, or
  split at the unlock) and expiries and runs of reap timers, the handlers invoked for a
  sequence number, plus the one still registered and the ones held by acks in progress,
  never outnumber the registrations made for it (plus what was there before): a registration
  is invoked at most once, and only by \<open>invokeAckHandler\<close>, which removes the entry under
  the lock before it invokes. A second \<open>invokeAckHandler\<close> changes nothing. The expiry and
  the closure of a reap timer never invoke a handler. The handler and the reap closure
  exclude each other outside the race: an \<open>invokeAckHandler\<close> that finds the timer of its
  registration still armed stops it, and its firing is then a no-op; once the closure of an
  expired timer has run, the entry is gone and \<open>invokeAckHandler\<close> does nothing.
\<close>

theorem C8_ack_at_most_once:
  "invocations seqNo (fst (ackRun (m, cs) evs)) + pending seqNo (fst (ackRun (m, cs) evs))
        + inflight seqNo (snd (ackRun (m, cs) evs))
       \<le> invocations seqNo m + pending seqNo m + inflight seqNo cs + registrations seqNo evs
   \<and> invokeAckHandler (invokeAckHandler m seqNo) seqNo = invokeAckHandler m seqNo
   \<and> invocations seqNo (ackTimerExpire m t) = invocations seqNo m
   \<and> invocations seqNo (ackTimerRun m t) = invocations seqNo m
   \<and> (ackHandlers m seqNo = Some ah
        \<longrightarrow> invocations seqNo (invokeAckHandler m seqNo) = invocations seqNo m + 1
          \<and> ackHandlers (invokeAckHandler m seqNo) seqNo = None)
   \<and> (ackHandlers m seqNo = Some ah \<and> ackTimers m (timer ah) = Some (Armed s chan)
        \<longrightarrow> ackTimers (invokeAckHandler m seqNo) (timer ah) = None
          \<and> ackTimerFire (invokeAckHandler m seqNo) (timer ah) = invokeAckHandler m seqNo)
   \<and> (ackTimers m t = Some (Expired seqNo chan)
        \<longrightarrow> ackHandlers (ackTimerRun m t) seqNo = None
          \<and> invokeAckHandler (ackTimerRun m t) seqNo = ackTimerRun m t)"
proof -
  have 2: "invokeAckHandler (invokeAckHandler m seqNo) seqNo = invokeAckHandler m seqNo"
    by (simp add: ack_defs split: option.splits handlerFn.splits reapTimer.splits)
  have 3: "invocations seqNo (invokeAckHandler m seqNo) = invocations seqNo m + 1
          \<and> ackHandlers (invokeAckHandler m seqNo) seqNo = None"
    if "ackHandlers m seqNo = Some ah"
    using that
    by (simp add: invokeAckHandler_def ackLocked_def ackUnlocked_count)
       (simp add: invocations_def)
  have 4: "ackTimers (invokeAckHandler m seqNo) (timer ah) = None
          \<and> ackTimerFire (invokeAckHandler m seqNo) (timer ah) = invokeAckHandler m seqNo"
    if "ackHandlers m seqNo = Some ah" "ackTimers m (timer ah) = Some (Armed s chan)"
    using that by (simp add: ack_defs split: handlerFn.splits)
  have 5: "ackHandlers (ackTimerRun m t) seqNo = None
          \<and> invokeAckHandler (ackTimerRun m t) seqNo = ackTimerRun m t"
    if "ackTimers m t = Some (Expired seqNo chan)"
    using that by (simp add: ack_defs split: option.splits)
  from ackRun_count[of seqNo "(m, cs)" evs] 2 3 4 5 ackTimer_count(1,2)[of seqNo m t]
  show ?thesis by simp
qed

theorem C8_ack_at_most_once_witness:
  "registrations 1 ex_acks = 1
   \<and> invocations 1 (fst (ackRun (init ex_config, []) ex_acks)) = 1
   \<and> registrations 1 ex_race = 1
   \<and> invocations 1 (fst (ackRun (init ex_config, []) ex_race)) = 1
   \<and> ackHandlers (setAckChannel (init ex_config) 1 0 1000) 1 = Some \<lparr>handler = ChanHandler 0, timer = 0\<rparr>
   \<and> ackTimers (setAckChannel (init ex_config) 1 0 1000) 0 = Some (Armed 1 (Some 0))
   \<and> invocations 1 (invokeAckHandler (setAckChannel (init ex_config) 1 0 1000) 1) = 1
   \<and> ackTimerFire (invokeAckHandler (setAckChannel (init ex_config) 1 0 1000) 1) 0
        = invokeAckHandler (setAckChannel (init ex_config) 1 0 1000) 1
   \<and> invokeAckHandler (ackTimerFire (setAckChannel (init ex_config) 1 0 1000) 0) 1
        = ackTimerFire (setAckChannel (init ex_config) 1 0 1000) 0"
proof -
  let ?m = "setAckChannel (init ex_config) 1 0 1000"
  let ?ah = "\<lparr>handler = ChanHandler 0, timer = 0\<rparr>"
  have h: "ackHandlers ?m 1 = Some ?ah" "ackTimers ?m 0 = Some (Armed 1 (Some 0))"
    "ackTimers (ackTimerExpire ?m 0) 0 = Some (Expired 1 (Some 0))"
    "invocations 1 ?m = 0"
    by (simp_all add: setAckChannel_def ackTimerExpire_def init_def invocations_def)
  have t: "timer ?ah = 0" by simp
  note T = C8_ack_at_most_once[of 1 ?m "[]" "[]" 0 ?ah 1 "Some 0"]
  note U = C8_ack_at_most_once[of 1 "ackTimerExpire ?m 0" "[]" "[]" 0 ?ah 1 "Some 0"]
  from T h have a: "ackTimerFire (invokeAckHandler ?m 1) 0 = invokeAckHandler ?m 1"
    "invocations 1 (invokeAckHandler ?m 1) = invocations 1 ?m + 1"
    unfolding t by blast+
  from U h have b: "invokeAckHandler (ackTimerFire ?m 0) 1 = ackTimerFire ?m 0"
    unfolding ackTimerFire_def by blast
  have c: "registrations 1 ex_acks = 1" "invocations 1 (fst (ackRun (init ex_config, []) ex_acks)) = 1"
    "registrations 1 ex_race = 1" "invocations 1 (fst (ackRun (init ex_config, []) ex_race)) = 1"
    by (simp_all add: registrations_def ex_acks_def ex_race_def ack_defs init_def)
  from a b c h show ?thesis by simp
qed

text \<open>
  C8 as stated fails on "never both": when the reap timer of a registration expires and
  runs between the unlock of \<open>invokeAckHandler\<close> and its \<open>timer.Stop()\<close>, the one
  registration gets the reap closure's \<open>false\<close> and the handler's \<open>true\<close>.
\<close>

theorem C8_counterexample:
  "registrations 1 ex_race = 1
   \<and> trace (fst (ackRun (init ex_config, []) ex_race))
       = [ChanSend 0 False, HandlerInvoked 1 (ChanHandler 0), ChanSend 0 True]"
  by (simp add: registrations_def ex_race_def ack_defs init_def)

text \<open>
  C9 (push/pull errors) fails on the logging: when \<open>sendAndReceiveState\<close> returns an error,
  \<open>pushPullNode\<close> returns \<open>nil\<close> without logging, so the log statement of \<open>pushPull\<close> is never
  reached and the trace stays as it was.
\<close>

theorem C9_error_not_logged:
  "pushPullNode ex_peer (\<lambda>addr. Inl ''connection refused'') (Addr (heap ex_peer ! 1))
      = (ex_peer, None)
   \<and> pushPull ex_peer [1] (\<lambda>addr. Inl ''connection refused'') = ex_peer
   \<and> trace (pushPull ex_peer [1] (\<lambda>addr. Inl ''connection refused'')) = trace ex_peer"
  by (simp add: pushPull_def pushPullNode_def)

text \<open>
  C10 (Alive with incarnation 0 about an unknown name). The call appends one record, Dead
  with incarnation 0 and the carried address and meta data, puts it into the sequence by the
  random-offset swap and into the mapping under its name (each grows by exactly that entry),
  and records nothing in the trace: no broadcast, no notification, no timer. Along every run
  of events none of which is an Alive about that name with a non-zero incarnation the record
  stays Dead with incarnation 0, and such an Alive makes it Alive.
\<close>

theorem C10_alive_unknown_zero:
  assumes inv: "table_inv m"
    and new: "nodeMap m (alive_Node a) = None"
    and zero: "alive_Incarnation a = 0"
  shows "let m' = aliveNode m a r now; p = length (heap m); n = length (nodes m);
             ns = nodes m @ [p]; offset = randomOffset n r
         in heap m' = heap m @ [\<lparr>Name = alive_Node a, Addr = alive_Addr a, Meta = alive_Meta a,
                                  Incarnation = 0, State = StateDead, StateChange = 0\<rparr>]
          \<and> nodes m' = ns[offset := ns ! n, n := ns ! offset]
          \<and> mset (nodes m') = add_mset p (mset (nodes m))
          \<and> nodeMap m' = (nodeMap m)(alive_Node a \<mapsto> p)
          \<and> dom (nodeMap m') = insert (alive_Node a) (dom (nodeMap m))
          \<and> alive_Node a \<notin> dom (nodeMap m)
          \<and> trace m' = trace m
          \<and> (\<forall>es. (\<forall>e \<in> set es. \<not> revives (alive_Node a) e)
                \<longrightarrow> State (heap (run m' es) ! p) = StateDead
                  \<and> Incarnation (heap (run m' es) ! p) = 0)
          \<and> (\<forall>a' r' now'. alive_Node a' = alive_Node a \<and> alive_Incarnation a' \<noteq> 0
                \<longrightarrow> State (heap (aliveNode m' a' r' now') ! p) = StateAlive
                  \<and> Incarnation (heap (aliveNode m' a' r' now') ! p) = alive_Incarnation a')"
proof -
  let ?m' = "aliveNode m a r now" and ?p = "length (heap m)"
  have m': "?m' = fst (insertNode m a r)"
    using zero by (simp add: aliveNode_unknown[OF new] Let_def)
  have inv': "table_inv ?m'" by (rule table_inv_aliveNode[OF inv])
  have rec: "heap ?m' ! ?p = newNodeState a" "?p < length (heap ?m')"
    by (simp_all add: m' insertNode_fields)
  have stays: "State (heap (run ?m' es) ! ?p) = StateDead \<and> Incarnation (heap (run ?m' es) ! ?p) = 0"
    if "\<forall>e \<in> set es. \<not> revives (alive_Node a) e" for es
  proof -
    have "heap (run ?m' es) ! ?p = heap ?m' ! ?p"
      using that by (intro run_dead[OF inv' rec(2)]) (simp_all add: rec(1) newNodeState_def)
    then show ?thesis by (simp add: rec(1) newNodeState_def)
  qed
  have again: "State (heap (aliveNode ?m' a' r' now') ! ?p) = StateAlive
      \<and> Incarnation (heap (aliveNode ?m' a' r' now') ! ?p) = alive_Incarnation a'"
    if "alive_Node a' = alive_Node a" "alive_Incarnation a' \<noteq> 0" for a' r' now'
  proof -
    have "nodeMap ?m' (alive_Node a') = Some ?p"
      using that by (simp add: m' insertNode_fields)
    from aliveNode_known[OF this] that(2) rec show ?thesis
      by (simp add: newNodeState_def emit_def word_le_def[symmetric] not_le word_neq_0_conv)
  qed
  have shape: "heap ?m' = heap m @ [\<lparr>Name = alive_Node a, Addr = alive_Addr a, Meta = alive_Meta a,
                                  Incarnation = 0, State = StateDead, StateChange = 0\<rparr>]"
    "nodes ?m' = (nodes m @ [?p])[randomOffset (length (nodes m)) r := (nodes m @ [?p]) ! length (nodes m),
        length (nodes m) := (nodes m @ [?p]) ! randomOffset (length (nodes m)) r]"
    "mset (nodes ?m') = add_mset ?p (mset (nodes m))"
    "nodeMap ?m' = (nodeMap m)(alive_Node a \<mapsto> ?p)"
    "trace ?m' = trace m"
    by (simp_all add: m' insertNode_fields insertNode_mset)
       (simp_all add: insertNode_def Let_def newNodeState_def)
  have dom: "dom (nodeMap ?m') = insert (alive_Node a) (dom (nodeMap m))"
    "alive_Node a \<notin> dom (nodeMap m)"
    using new by (auto simp: shape(4))
  show ?thesis
    unfolding Let_def using shape dom stays again by blast
qed

theorem C10_alive_unknown_zero_witness:
  "table_inv ex_self
   \<and> nodeMap ex_self (alive_Node (ex_alive ''b'' 0)) = None
   \<and> alive_Incarnation (ex_alive ''b'' 0) = 0
   \<and> heap (aliveNode ex_self (ex_alive ''b'' 0) 7 2) =
       heap ex_self @ [\<lparr>Name = ''b'', Addr = [10, 0, 0, 1], Meta = [], Incarnation = 0,
                         State = StateDead, StateChange = 0\<rparr>]
   \<and> nodes (aliveNode ex_self (ex_alive ''b'' 0) 7 2) = [1, 0]
   \<and> trace (aliveNode ex_self (ex_alive ''b'' 0) 7 2) = trace ex_self
   \<and> State (heap (run (aliveNode ex_self (ex_alive ''b'' 0) 7 2)
         [SuspectEv \<lparr>suspect_Incarnation = 4, suspect_Node = ''b''\<rparr> 3,
          AliveEv (ex_alive ''b'' 0) 5 4,
          DeadEv \<lparr>dead_Incarnation = 0, dead_Node = ''b''\<rparr> 5]) ! 1) = StateDead
   \<and> State (heap (aliveNode (aliveNode ex_self (ex_alive ''b'' 0) 7 2) (ex_alive ''b'' 1) 5 4) ! 1)
       = StateAlive"
proof -
  let ?a = "ex_alive ''b'' 0"
  let ?m' = "aliveNode ex_self ?a 7 2"
  let ?p = "length (heap ex_self)"
  let ?n = "length (nodes ex_self)"
  let ?es = "[SuspectEv \<lparr>suspect_Incarnation = 4, suspect_Node = ''b''\<rparr> 3,
          AliveEv (ex_alive ''b'' 0) 5 4,
          DeadEv \<lparr>dead_Incarnation = 0, dead_Node = ''b''\<rparr> 5]"
  have h: "table_inv ex_self" "nodeMap ex_self (alive_Node ?a) = None"
    "alive_Incarnation ?a = 0"
    by (simp_all add: table_inv_ex_self) (simp_all add: ex_self_eq ex_alive_def)
  note T = C10_alive_unknown_zero[OF h, of 7 2, unfolded Let_def]
  have q: "\<forall>e \<in> set ?es. \<not> revives (alive_Node ?a) e"
    by (simp add: ex_alive_def)
  have r: "alive_Node (ex_alive ''b'' 1) = alive_Node ?a
       \<and> alive_Incarnation (ex_alive ''b'' 1) \<noteq> 0"
    by (simp add: ex_alive_def)
  from T q have stay: "State (heap (run ?m' ?es) ! ?p) = StateDead"
    by blast
  from T r have rev: "State (heap (aliveNode ?m' (ex_alive ''b'' 1) 5 4) ! ?p) = StateAlive"
    by blast
  from T have hp: "heap ?m' = heap ex_self @ [\<lparr>Name = alive_Node ?a, Addr = alive_Addr ?a,
      Meta = alive_Meta ?a, Incarnation = 0, State = StateDead, StateChange = 0\<rparr>]"
    by blast
  from T have nd: "nodes ?m' = (nodes ex_self @ [?p])[randomOffset ?n 7 := (nodes ex_self @ [?p]) ! ?n,
      ?n := (nodes ex_self @ [?p]) ! randomOffset ?n 7]"
    by blast
  from T have tr: "trace ?m' = trace ex_self"
    by blast
  have e: "?p = 1" "nodes ex_self = [0]" "randomOffset 1 7 = 0"
    by (simp_all add: ex_self_eq randomOffset_def)
  have "randomOffset (Suc 0) 7 = 0"
    by (simp add: randomOffset_def)
  then have nd': "nodes ?m' = [1, 0]"
    unfolding nd e by simp
  have hp': "heap ?m' = heap ex_self @ [\<lparr>Name = ''b'', Addr = [10, 0, 0, 1], Meta = [],
      Incarnation = 0, State = StateDead, StateChange = 0\<rparr>]"
    unfolding hp by (simp add: ex_alive_def)
  from h hp' nd' tr stay rev show ?thesis
    unfolding e by blast
qed

end
